theory Spec2Isabelle
  imports Complex_Main "HOL-Library.AList"
begin

section \<open>Values and time\<close>

text \<open>
  \<open>Date.now()\<close> is an input of every operation that reads the clock (the parameter \<open>now\<close>,
  one reading for all the reads of one synchronous call), and \<open>uuidv4()\<close> is the parameter
  \<open>uuid\<close> of the operations that draw an identifier. Clock readings are milliseconds, as
  natural numbers.

  A value of the type \<open>number\<close> that a caller passes is a double: a finite number (taken
  as the real it denotes, so that \<open>0\<close> and \<open>-0\<close> are one value), \<open>NaN\<close>, or an infinity.
  \<open>ToBoolean\<close> is the truth value that a condition gives it: \<open>0\<close> and \<open>NaN\<close> are falsy.
\<close>

datatype number = Finite real | NaN | PosInfinity | NegInfinity

fun ToBoolean :: "number \<Rightarrow> bool" where
  "ToBoolean (Finite r) = (r \<noteq> 0)"
| "ToBoolean NaN = False"
| "ToBoolean PosInfinity = True"
| "ToBoolean NegInfinity = True"

text \<open>
  Values of the TypeScript type \<open>any\<close> (artifacts, results, metadata) are opaque to the
  core, which stores them and hands them to \<open>JSON.stringify\<close>. They are \<open>undefined\<close>,
  \<open>null\<close>, booleans, numbers, strings, arrays, plain objects (their own enumerable
  properties, in the order of enumeration), functions (named by a number) and \<open>Date\<close>
  objects (given by the text of \<open>toISOString()\<close>; \<open>None\<close> is the invalid date). Other
  values (BigInt and cyclic objects, on which \<open>JSON.stringify\<close> throws, symbols, objects
  with accessors or a \<open>toJSON\<close> of their own) are not represented.
\<close>

datatype any = Undefined | Null | Boolean bool | Number number | Str string
  | Array "any list" | Object "(string \<times> any) list" | Function nat | Date "string option"

text \<open>
  A JSON text is kept as the document it denotes. \<open>JSON_stringify_value\<close> is the
  abstract operation SerializeJSONProperty of \<open>JSON.stringify\<close>: \<open>undefined\<close> and
  functions have no JSON text (\<open>None\<close>), so that a property holding one is left out and an
  array element holding one is written as \<open>null\<close>; \<open>NaN\<close> and the infinities are written
  as \<open>null\<close>; a \<open>Date\<close> is written as the string that its \<open>toJSON\<close> gives.
  \<open>JSON_parse_value\<close> is the value that \<open>JSON.parse\<close> builds from a document; where a
  key occurs twice, the last occurrence gives the value. The numbers of a document are
  those that finite doubles denote, which is what \<open>JSON.stringify\<close> writes.
\<close>

datatype json = JNull | JBool bool | JNum real | JStr string | JArr "json list"
  | JObj "(string \<times> json) list"

fun JSON_stringify_value :: "any \<Rightarrow> json option" where
  "JSON_stringify_value Undefined = None"
| "JSON_stringify_value (Function f) = None"
| "JSON_stringify_value Null = Some JNull"
| "JSON_stringify_value (Boolean b) = Some (JBool b)"
| "JSON_stringify_value (Number x) = (case x of Finite r \<Rightarrow> Some (JNum r) | _ \<Rightarrow> Some JNull)"
| "JSON_stringify_value (Str s) = Some (JStr s)"
| "JSON_stringify_value (Date d) = (case d of None \<Rightarrow> Some JNull | Some txt \<Rightarrow> Some (JStr txt))"
| "JSON_stringify_value (Array xs) =
     Some (JArr (map (\<lambda>x. case JSON_stringify_value x of None \<Rightarrow> JNull | Some j \<Rightarrow> j) xs))"
| "JSON_stringify_value (Object kvs) =
     Some (JObj (List.map_filter (\<lambda>(k, j). map_option (Pair k) j)
                  (map (\<lambda>(k, v). (k, JSON_stringify_value v)) kvs)))"

definition last_wins :: "(string \<times> 'a) list \<Rightarrow> (string \<times> 'a) list" where
  "last_wins kvs = fold (\<lambda>(k, v). AList.update k v) kvs []"

fun JSON_parse_value :: "json \<Rightarrow> any" where
  "JSON_parse_value JNull = Null"
| "JSON_parse_value (JBool b) = Boolean b"
| "JSON_parse_value (JNum r) = Number (Finite r)"
| "JSON_parse_value (JStr s) = Str s"
| "JSON_parse_value (JArr js) = Array (map JSON_parse_value js)"
| "JSON_parse_value (JObj kvs) = Object (last_wins (map (\<lambda>(k, j). (k, JSON_parse_value j)) kvs))"

text \<open>JSON data: the values that a JSON text can denote.\<close>

fun is_JSON :: "any \<Rightarrow> bool" where
  "is_JSON Null = True"
| "is_JSON (Boolean b) = True"
| "is_JSON (Number x) = (case x of Finite r \<Rightarrow> True | _ \<Rightarrow> False)"
| "is_JSON (Str s) = True"
| "is_JSON (Array xs) = list_all is_JSON xs"
| "is_JSON (Object kvs) = (distinct (map fst kvs) \<and> list_all (\<lambda>(k, v). is_JSON v) kvs)"
| "is_JSON Undefined = False"
| "is_JSON (Function f) = False"
| "is_JSON (Date d) = False"

section \<open>MemoryStore (core/memoryStore.ts)\<close>

text \<open>
  The interfaces \<open>PhaseData\<close>, \<open>ConversationEntry\<close> and \<open>ProjectContext\<close>. The records
  take the type of the opaque values as a parameter: values of the program in memory
  (\<open>any\<close>), JSON documents in a file (\<open>json\<close>). An optional field is \<open>None\<close> when its key
  is absent or holds \<open>undefined\<close>, which read the same. The fields of a declared type
  hold values of that type, numbers being clock readings. \<open>phases\<close>, \<open>artifacts\<close> and
  \<open>metadata\<close> are objects used as dictionaries; the maps hold their own properties.
\<close>

record TechStack =
  backend :: "string list option"
  frontend :: "string list option"
  database :: "string list option"
  infrastructure :: "string list option"
  testing :: "string list option"
  other :: "string list option"

datatype ProjectStatus = INITIALIZING | REQUIREMENTS | ARCHITECTURE | DEVELOPMENT | TESTING
  | DEVOPS | DOCUMENTATION | COMPLETED | FAILED

datatype PhaseStatus = pending | in_progress | completed | failed

record 'v PhaseFields =
  ph_name :: string
  ph_status :: PhaseStatus
  startedAt :: "nat option"
  completedAt :: "nat option"
  ph_result :: "'v option"
  ph_artifacts :: "'v option"
  ph_notes :: "string list option"

type_synonym PhaseData = "any PhaseFields"

text \<open>
  \<open>Partial<PhaseData>\<close>: every key may be absent (\<open>None\<close>). A key of an optional field
  may also be present with the value \<open>undefined\<close> (\<open>Some None\<close>), which the object
  spread copies like any other value.
\<close>

record PartialPhaseData =
  set_name :: "string option"
  set_status :: "PhaseStatus option"
  set_startedAt :: "nat option option"
  set_completedAt :: "nat option option"
  set_result :: "any option option"
  set_artifacts :: "any option option"
  set_notes :: "string list option option"

datatype ConversationRole = user | lead | system

record 'v ConversationFields =
  ce_timestamp :: nat
  ce_role :: ConversationRole
  message :: string
  ce_metadata :: "'v option"

type_synonym ConversationEntry = "any ConversationFields"

record 'v ProjectFields =
  pc_id :: string
  purposeId :: string
  purposeName :: string
  techStack :: TechStack
  pc_status :: ProjectStatus
  createdAt :: nat
  updatedAt :: nat
  phases :: "string \<rightharpoonup> 'v PhaseFields"
  pc_artifacts :: "string \<rightharpoonup> 'v"
  conversationHistory :: "'v ConversationFields list"
  pc_metadata :: "string \<rightharpoonup> 'v"

type_synonym ProjectContext = "any ProjectFields"

text \<open>
  The durable storage. A file written by \<open>persist\<close> holds the JSON text of a project
  context, kept as the document it denotes: an object with the keys of a project
  context, in which an optional key is absent or present and the opaque values are JSON
  documents. \<open>JSON_stringify\<close> writes each opaque value with \<open>JSON_stringify_value\<close>;
  a property or an optional field whose value has no JSON text is left out.
  \<open>JSON_parse\<close> reads a context back from a document, each opaque value with
  \<open>JSON_parse_value\<close>. \<open>Unparsable\<close> stands for a file content on which \<open>JSON.parse\<close>
  throws. A file with the JSON text of something else than a project context, which
  \<open>loadProject\<close> would hand out unchecked, is not among the files of the model.
  \<open>ioFails\<close> says that the file system calls throw; \<open>persist\<close> and \<open>loadProject\<close> catch
  and log that.
\<close>

datatype FileContent = JSON_text "json ProjectFields" | Unparsable string

definition stringify_phase :: "PhaseData \<Rightarrow> json PhaseFields" where
  "stringify_phase d =
     \<lparr>ph_name = ph_name d, ph_status = ph_status d, startedAt = startedAt d,
      completedAt = completedAt d,
      ph_result = Option.bind (ph_result d) JSON_stringify_value,
      ph_artifacts = Option.bind (ph_artifacts d) JSON_stringify_value,
      ph_notes = ph_notes d\<rparr>"

definition stringify_entry :: "ConversationEntry \<Rightarrow> json ConversationFields" where
  "stringify_entry e =
     \<lparr>ce_timestamp = ce_timestamp e, ce_role = ce_role e, message = message e,
      ce_metadata = Option.bind (ce_metadata e) JSON_stringify_value\<rparr>"

definition JSON_stringify :: "ProjectContext \<Rightarrow> FileContent" where
  "JSON_stringify project =
     JSON_text
       \<lparr>pc_id = pc_id project, purposeId = purposeId project, purposeName = purposeName project,
        techStack = techStack project, pc_status = pc_status project,
        createdAt = createdAt project, updatedAt = updatedAt project,
        phases = (\<lambda>k. map_option stringify_phase (phases project k)),
        pc_artifacts = (\<lambda>k. Option.bind (pc_artifacts project k) JSON_stringify_value),
        conversationHistory = map stringify_entry (conversationHistory project),
        pc_metadata = (\<lambda>k. Option.bind (pc_metadata project k) JSON_stringify_value)\<rparr>"

definition parse_phase :: "json PhaseFields \<Rightarrow> PhaseData" where
  "parse_phase d =
     \<lparr>ph_name = ph_name d, ph_status = ph_status d, startedAt = startedAt d,
      completedAt = completedAt d,
      ph_result = map_option JSON_parse_value (ph_result d),
      ph_artifacts = map_option JSON_parse_value (ph_artifacts d),
      ph_notes = ph_notes d\<rparr>"

definition parse_entry :: "json ConversationFields \<Rightarrow> ConversationEntry" where
  "parse_entry e =
     \<lparr>ce_timestamp = ce_timestamp e, ce_role = ce_role e, message = message e,
      ce_metadata = map_option JSON_parse_value (ce_metadata e)\<rparr>"

fun JSON_parse :: "FileContent \<Rightarrow> ProjectContext option" where
  "JSON_parse (JSON_text doc) =
     Some \<lparr>pc_id = pc_id doc, purposeId = purposeId doc, purposeName = purposeName doc,
           techStack = techStack doc, pc_status = pc_status doc,
           createdAt = createdAt doc, updatedAt = updatedAt doc,
           phases = (\<lambda>k. map_option parse_phase (phases doc k)),
           pc_artifacts = (\<lambda>k. map_option JSON_parse_value (pc_artifacts doc k)),
           conversationHistory = map parse_entry (conversationHistory doc),
           pc_metadata = (\<lambda>k. map_option JSON_parse_value (pc_metadata doc k))\<rparr>"
| "JSON_parse (Unparsable txt) = None"

record FileSystem =
  files :: "string \<rightharpoonup> FileContent"
  ioFails :: bool

record MemoryStore =
  projects :: "string \<rightharpoonup> ProjectContext"
  currentProjectId :: "string option"
  persistencePath :: string
  disk :: FileSystem

text \<open>\<open>path.join(this.persistencePath, `${projectId}.json`)\<close>, for identifiers without
  path separators.\<close>

definition filePath :: "MemoryStore \<Rightarrow> string \<Rightarrow> string" where
  "filePath st projectId = persistencePath st @ ''/'' @ projectId @ ''.json''"

definition persist :: "MemoryStore \<Rightarrow> string \<Rightarrow> MemoryStore" where
  "persist st projectId =
     (case projects st projectId of
        None \<Rightarrow> st
      | Some project \<Rightarrow>
          if ioFails (disk st) then st
          else st\<lparr>disk := (disk st)\<lparr>files :=
                 (files (disk st))(filePath st projectId \<mapsto> JSON_stringify project)\<rparr>\<rparr>)"

definition createProject ::
  "MemoryStore \<Rightarrow> string \<Rightarrow> nat \<Rightarrow> string \<Rightarrow> string \<Rightarrow> TechStack \<Rightarrow> ProjectContext \<times> MemoryStore" where
  "createProject st uuid now purposeId' purposeName' techStack' =
     (let project = \<lparr>pc_id = uuid, purposeId = purposeId', purposeName = purposeName',
                      techStack = techStack', pc_status = INITIALIZING, createdAt = now,
                      updatedAt = now, phases = Map.empty, pc_artifacts = Map.empty,
                      conversationHistory = [], pc_metadata = Map.empty\<rparr>;
          st1 = st\<lparr>projects := (projects st)(uuid \<mapsto> project), currentProjectId := Some uuid\<rparr>
      in (project, persist st1 uuid))"

text \<open>\<open>if (!this.currentProjectId) return null\<close>: the empty string is falsy as well.\<close>

definition getCurrentProject :: "MemoryStore \<Rightarrow> ProjectContext option" where
  "getCurrentProject st =
     (case currentProjectId st of
        None \<Rightarrow> None
      | Some i \<Rightarrow> if i = [] then None else projects st i)"

definition getProject :: "MemoryStore \<Rightarrow> string \<Rightarrow> ProjectContext option" where
  "getProject st projectId = projects st projectId"

definition updateProjectStatus :: "MemoryStore \<Rightarrow> nat \<Rightarrow> string \<Rightarrow> ProjectStatus \<Rightarrow> MemoryStore" where
  "updateProjectStatus st now projectId status =
     (case projects st projectId of
        None \<Rightarrow> st
      | Some project \<Rightarrow>
          persist (st\<lparr>projects := (projects st)(projectId \<mapsto>
                     project\<lparr>pc_status := status, updatedAt := now\<rparr>)\<rparr>) projectId)"

text \<open>The object spread \<open>{...existing, ...phaseData}\<close>: every key present in the second
  object overrides the first.\<close>

definition spread :: "PhaseData \<Rightarrow> PartialPhaseData \<Rightarrow> PhaseData" where
  "spread d u =
     \<lparr>ph_name = (case set_name u of None \<Rightarrow> ph_name d | Some v \<Rightarrow> v),
      ph_status = (case set_status u of None \<Rightarrow> ph_status d | Some v \<Rightarrow> v),
      startedAt = (case set_startedAt u of None \<Rightarrow> startedAt d | Some v \<Rightarrow> v),
      completedAt = (case set_completedAt u of None \<Rightarrow> completedAt d | Some v \<Rightarrow> v),
      ph_result = (case set_result u of None \<Rightarrow> ph_result d | Some v \<Rightarrow> v),
      ph_artifacts = (case set_artifacts u of None \<Rightarrow> ph_artifacts d | Some v \<Rightarrow> v),
      ph_notes = (case set_notes u of None \<Rightarrow> ph_notes d | Some v \<Rightarrow> v)\<rparr>"

definition updatePhase ::
  "MemoryStore \<Rightarrow> nat \<Rightarrow> string \<Rightarrow> string \<Rightarrow> PartialPhaseData \<Rightarrow> MemoryStore" where
  "updatePhase st now projectId phaseName phaseData =
     (case projects st projectId of
        None \<Rightarrow> st
      | Some project \<Rightarrow>
          (let existing = (case phases project phaseName of
                             None \<Rightarrow> \<lparr>ph_name = phaseName, ph_status = pending,
                                       startedAt = None, completedAt = None, ph_result = None,
                                       ph_artifacts = None, ph_notes = Some []\<rparr>
                           | Some d \<Rightarrow> d);
               project' = project\<lparr>phases := (phases project)(phaseName \<mapsto> spread existing phaseData),
                                  updatedAt := now\<rparr>
           in persist (st\<lparr>projects := (projects st)(projectId \<mapsto> project')\<rparr>) projectId))"

definition storeArtifact :: "MemoryStore \<Rightarrow> nat \<Rightarrow> string \<Rightarrow> string \<Rightarrow> any \<Rightarrow> MemoryStore" where
  "storeArtifact st now projectId artifactKey artifactData =
     (case projects st projectId of
        None \<Rightarrow> st
      | Some project \<Rightarrow>
          persist (st\<lparr>projects := (projects st)(projectId \<mapsto>
                     project\<lparr>pc_artifacts := (pc_artifacts project)(artifactKey \<mapsto> artifactData),
                             updatedAt := now\<rparr>)\<rparr>) projectId)"

definition getArtifact :: "MemoryStore \<Rightarrow> string \<Rightarrow> string \<Rightarrow> any option" where
  "getArtifact st projectId artifactKey =
     (case projects st projectId of None \<Rightarrow> None | Some project \<Rightarrow> pc_artifacts project artifactKey)"

definition addConversation ::
  "MemoryStore \<Rightarrow> nat \<Rightarrow> string \<Rightarrow> ConversationRole \<Rightarrow> string \<Rightarrow> any option \<Rightarrow> MemoryStore" where
  "addConversation st now projectId role msg meta =
     (case projects st projectId of
        None \<Rightarrow> st
      | Some project \<Rightarrow>
          persist (st\<lparr>projects := (projects st)(projectId \<mapsto>
                     project\<lparr>conversationHistory := conversationHistory project @
                               [\<lparr>ce_timestamp = now, ce_role = role, message = msg, ce_metadata = meta\<rparr>],
                             updatedAt := now\<rparr>)\<rparr>) projectId)"

definition updateMetadata :: "MemoryStore \<Rightarrow> nat \<Rightarrow> string \<Rightarrow> string \<Rightarrow> any \<Rightarrow> MemoryStore" where
  "updateMetadata st now projectId key v =
     (case projects st projectId of
        None \<Rightarrow> st
      | Some project \<Rightarrow>
          persist (st\<lparr>projects := (projects st)(projectId \<mapsto>
                     project\<lparr>pc_metadata := (pc_metadata project)(key \<mapsto> v), updatedAt := now\<rparr>)\<rparr>)
            projectId)"

definition getConversationHistory :: "MemoryStore \<Rightarrow> string \<Rightarrow> ConversationEntry list" where
  "getConversationHistory st projectId =
     (case projects st projectId of None \<Rightarrow> [] | Some project \<Rightarrow> conversationHistory project)"

text \<open>\<open>deleteProject\<close> with \<open>deletePersisted\<close>: the file goes too, unless the file system
  calls throw.\<close>

definition deleteProject :: "MemoryStore \<Rightarrow> string \<Rightarrow> MemoryStore" where
  "deleteProject st projectId =
     (let st1 = st\<lparr>projects := (projects st)(projectId := None),
                   currentProjectId := (if currentProjectId st = Some projectId then None
                                        else currentProjectId st)\<rparr>
      in if ioFails (disk st1) then st1
         else st1\<lparr>disk := (disk st1)\<lparr>files := (files (disk st1))(filePath st1 projectId := None)\<rparr>\<rparr>)"

definition setCurrentProject :: "MemoryStore \<Rightarrow> string \<Rightarrow> MemoryStore" where
  "setCurrentProject st projectId =
     (if projects st projectId \<noteq> None then st\<lparr>currentProjectId := Some projectId\<rparr> else st)"

definition loadProject :: "MemoryStore \<Rightarrow> string \<Rightarrow> ProjectContext option \<times> MemoryStore" where
  "loadProject st projectId =
     (if ioFails (disk st) then (None, st)
      else case files (disk st) (filePath st projectId) of
             None \<Rightarrow> (None, st)
           | Some txt \<Rightarrow>
               (case JSON_parse txt of
                  None \<Rightarrow> (None, st)
                | Some project \<Rightarrow> (Some project, st\<lparr>projects := (projects st)(projectId \<mapsto> project)\<rparr>)))"

text \<open>The constructor: no project, no current project, whatever the directory holds.\<close>

definition new_MemoryStore :: "string \<Rightarrow> FileSystem \<Rightarrow> MemoryStore" where
  "new_MemoryStore path d =
     \<lparr>projects = Map.empty, currentProjectId = None, persistencePath = path, disk = d\<rparr>"

text \<open>The mutating calls on one project, as data, to speak about sequences of them.\<close>

datatype Mutation =
    UpdateProjectStatus ProjectStatus
  | UpdatePhase string PartialPhaseData
  | StoreArtifact string any
  | AddConversation ConversationRole string "any option"
  | UpdateMetadata string any

fun mutate :: "string \<Rightarrow> nat \<times> Mutation \<Rightarrow> MemoryStore \<Rightarrow> MemoryStore" where
  "mutate projectId (now, UpdateProjectStatus status) st = updateProjectStatus st now projectId status"
| "mutate projectId (now, UpdatePhase phaseName phaseData) st = updatePhase st now projectId phaseName phaseData"
| "mutate projectId (now, StoreArtifact k v) st = storeArtifact st now projectId k v"
| "mutate projectId (now, AddConversation role msg meta) st = addConversation st now projectId role msg meta"
| "mutate projectId (now, UpdateMetadata k v) st = updateMetadata st now projectId k v"

text \<open>
  The names that every object inherits from \<open>Object.prototype\<close>. For such a phase name
  \<open>project.phases[phaseName]\<close> finds the inherited member where the map of the own
  properties has nothing, and an assignment to the name \<open>__proto__\<close> makes no own
  property; the mutating calls above are those for the other names.
\<close>

definition Object_prototype :: "string list" where
  "Object_prototype =
     [''constructor'', ''__defineGetter__'', ''__defineSetter__'', ''hasOwnProperty'',
      ''__lookupGetter__'', ''__lookupSetter__'', ''isPrototypeOf'', ''propertyIsEnumerable'',
      ''toString'', ''valueOf'', ''__proto__'', ''toLocaleString'']"

text \<open>
  A mutating call that hands JSON data to the store, under a name that is not inherited
  (a phase name) or not \<open>__proto__\<close> (a key of the artifacts or of the metadata).
\<close>

fun JSON_field :: "any option option \<Rightarrow> bool" where
  "JSON_field (Some (Some v)) = is_JSON v"
| "JSON_field x = True"

fun JSON_mutation :: "Mutation \<Rightarrow> bool" where
  "JSON_mutation (UpdateProjectStatus status) = True"
| "JSON_mutation (UpdatePhase phaseName phaseData) =
     (phaseName \<notin> set Object_prototype \<and> JSON_field (set_result phaseData)
      \<and> JSON_field (set_artifacts phaseData))"
| "JSON_mutation (StoreArtifact k v) = (k \<noteq> ''__proto__'' \<and> is_JSON v)"
| "JSON_mutation (AddConversation role msg meta) = JSON_field (Some meta)"
| "JSON_mutation (UpdateMetadata k v) = (k \<noteq> ''__proto__'' \<and> is_JSON v)"

text \<open>A project context whose opaque values are JSON data.\<close>

definition holds_JSON :: "ProjectContext \<Rightarrow> bool" where
  "holds_JSON project \<longleftrightarrow>
     (\<forall>k d. phases project k = Some d \<longrightarrow>
        JSON_field (Some (ph_result d)) \<and> JSON_field (Some (ph_artifacts d)))
     \<and> (\<forall>k v. pc_artifacts project k = Some v \<longrightarrow> is_JSON v)
     \<and> (\<forall>e\<in>set (conversationHistory project). JSON_field (Some (ce_metadata e)))
     \<and> (\<forall>k v. pc_metadata project k = Some v \<longrightarrow> is_JSON v)"

text \<open>Write-through: the file of a project holds the JSON text of its in-memory record.\<close>

definition mirrored :: "MemoryStore \<Rightarrow> string \<Rightarrow> bool" where
  "mirrored st i \<longleftrightarrow>
     (\<exists>p. projects st i = Some p \<and> files (disk st) (filePath st i) = Some (JSON_stringify p))"

text \<open>A small scenario, for evaluating the store on concrete inputs.\<close>

definition example_disk :: FileSystem where
  "example_disk = \<lparr>files = Map.empty, ioFails = False\<rparr>"

definition example_techStack :: TechStack where
  "example_techStack = \<lparr>backend = Some [''node''], frontend = Some [''react''], database = None,
     infrastructure = None, testing = None, other = None\<rparr>"

definition example_mutations :: "(nat \<times> Mutation) list" where
  "example_mutations =
     [(2, UpdateProjectStatus REQUIREMENTS),
      (3, UpdatePhase ''requirements''
            \<lparr>set_name = Some ''requirements'', set_status = Some in_progress,
             set_startedAt = Some (Some 3), set_completedAt = None, set_result = None,
             set_artifacts = None, set_notes = None\<rparr>),
      (4, StoreArtifact ''plan'' (Object [(''title'', Str ''draft''), (''pages'', Number (Finite 3))])),
      (5, AddConversation user ''hello'' None)]"

text \<open>A project with an artifact that is not JSON data, and a new store on its directory.\<close>

definition example_lossy :: MemoryStore where
  "example_lossy =
     storeArtifact
       (snd (createProject (new_MemoryStore ''./.autocursor'' example_disk) ''p1'' 1 ''web'' ''Web''
               example_techStack))
       2 ''p1'' ''score'' (Number NaN)"

definition example_reloaded :: "ProjectContext option" where
  "example_reloaded =
     fst (loadProject (new_MemoryStore (persistencePath example_lossy) (disk example_lossy)) ''p1'')"

section \<open>AgentManager (core/agentManager.ts)\<close>

datatype AgentRole = R_LEAD | R_REQUIREMENTS | R_ARCHITECT | R_BACKEND | R_FRONTEND | R_MOBILE
  | R_GAME | R_TESTER | R_DEVOPS | R_DOCS | R_SUMMARIZER

datatype AgentStatus = idle | working | agent_completed | agent_failed

datatype Failure = Error string | TypeError string

text \<open>The worker object (\<open>BaseAgent\<close>) is opaque to the registry: a handle.\<close>

type_synonym BaseAgent = nat

record AgentConfig =
  cfg_role :: AgentRole
  capabilities :: "string list"
  priority :: int
  systemPrompt :: "string option"

record AgentInstance =
  agent_id :: string
  agent_role :: AgentRole
  agent :: BaseAgent
  config :: AgentConfig
  agent_status :: AgentStatus
  agent_createdAt :: nat

text \<open>
  Both maps are JavaScript \<open>Map\<close>s, which keep insertion order: association lists,
  written with \<open>AList.update\<close> (\<open>Map.set\<close>) and \<open>AList.delete\<close> (\<open>Map.delete\<close>). The
  arrays of \<open>agentsByRole\<close> hold references to the instances of \<open>agents\<close>; a reference is
  the instance's id (\<open>uuidv4\<close> does not return an id twice). The lifecycle events
  that \<open>createAgent\<close> and \<open>executeAgent\<close> emit (\<open>agent.created\<close>, \<open>agent.started\<close>,
  \<open>agent.completed\<close>, \<open>agent.failed\<close>) have no listener in the core; the functions give
  the effect of the calls on the registry.
\<close>

record AgentManager =
  agents :: "(string \<times> AgentInstance) list"
  agentsByRole :: "(AgentRole \<times> string list) list"

definition new_AgentManager :: AgentManager where
  "new_AgentManager = \<lparr>agents = [], agentsByRole = []\<rparr>"

definition createAgent ::
  "AgentManager \<Rightarrow> string \<Rightarrow> nat \<Rightarrow> AgentRole \<Rightarrow> AgentConfig \<Rightarrow> BaseAgent \<Rightarrow> string \<times> AgentManager" where
  "createAgent am uuid now role cfg worker =
     (let instance = \<lparr>agent_id = uuid, agent_role = role, agent = worker, config = cfg,
                       agent_status = idle, agent_createdAt = now\<rparr>;
          am1 = am\<lparr>agents := AList.update uuid instance (agents am)\<rparr>;
          am2 = (if map_of (agentsByRole am1) role = None
                 then am1\<lparr>agentsByRole := AList.update role [] (agentsByRole am1)\<rparr> else am1);
          am3 = am2\<lparr>agentsByRole := AList.map_entry role (\<lambda>l. l @ [uuid]) (agentsByRole am2)\<rparr>
      in (uuid, am3))"

definition getAgent :: "AgentManager \<Rightarrow> string \<Rightarrow> AgentInstance option" where
  "getAgent am agentId' = map_of (agents am) agentId'"

definition getAgentsByRole :: "AgentManager \<Rightarrow> AgentRole \<Rightarrow> AgentInstance list" where
  "getAgentsByRole am role =
     (case map_of (agentsByRole am) role of
        None \<Rightarrow> []
      | Some ids \<Rightarrow> List.map_filter (map_of (agents am)) ids)"

text \<open>
  \<open>executeAgent\<close> awaits the worker, and other calls can run meanwhile: it is two steps.
  The first throws for an unknown id, else marks the instance working; the second runs
  when the worker has returned (\<open>Inr\<close>) or thrown (\<open>Inl\<close>) and writes the status to the
  instance, which changes the registry only if the instance is still tracked.
\<close>

definition executeAgent_start :: "AgentManager \<Rightarrow> string \<Rightarrow> Failure + AgentManager" where
  "executeAgent_start am agentId' =
     (case map_of (agents am) agentId' of
        None \<Rightarrow> Inl (Error (''Agent '' @ agentId' @ '' not found''))
      | Some instance \<Rightarrow>
          Inr (am\<lparr>agents := AList.update agentId' (instance\<lparr>agent_status := working\<rparr>) (agents am)\<rparr>))"

definition executeAgent_finish :: "AgentManager \<Rightarrow> string \<Rightarrow> Failure + any \<Rightarrow> AgentManager" where
  "executeAgent_finish am agentId' outcome =
     (case map_of (agents am) agentId' of
        None \<Rightarrow> am
      | Some instance \<Rightarrow>
          am\<lparr>agents := AList.update agentId'
                (instance\<lparr>agent_status := (case outcome of Inr r \<Rightarrow> agent_completed
                                             | Inl e \<Rightarrow> agent_failed)\<rparr>) (agents am)\<rparr>)"

definition getActiveAgents :: "AgentManager \<Rightarrow> AgentInstance list" where
  "getActiveAgents am =
     filter (\<lambda>instance. agent_status instance = idle \<or> agent_status instance = working)
       (map snd (agents am))"

definition removeAgent :: "AgentManager \<Rightarrow> string \<Rightarrow> AgentManager" where
  "removeAgent am agentId' =
     (case map_of (agents am) agentId' of
        None \<Rightarrow> am
      | Some instance \<Rightarrow>
          (let am1 = (case map_of (agentsByRole am) (agent_role instance) of
                        None \<Rightarrow> am
                      | Some roleAgents \<Rightarrow>
                          am\<lparr>agentsByRole := AList.update (agent_role instance)
                                (remove1 agentId' roleAgents) (agentsByRole am)\<rparr>)
           in am1\<lparr>agents := AList.delete agentId' (agents am1)\<rparr>))"

definition clearAgents :: "AgentManager \<Rightarrow> AgentManager" where
  "clearAgents am = am\<lparr>agents := [], agentsByRole := []\<rparr>"

record Statistics =
  total :: nat
  byRole :: "(AgentRole \<times> nat) list"
  byStatus :: "(AgentStatus \<times> nat) list"

text \<open>\<open>stats[k] = (stats[k] || 0) + 1\<close>\<close>

definition count_up :: "'k \<Rightarrow> ('k \<times> nat) list \<Rightarrow> ('k \<times> nat) list" where
  "count_up k m = AList.update k ((case map_of m k of None \<Rightarrow> 0 | Some n \<Rightarrow> n) + 1) m"

definition getStatistics :: "AgentManager \<Rightarrow> Statistics" where
  "getStatistics am =
     \<lparr>total = length (agents am),
      byRole = fold (\<lambda>(i, instance). count_up (agent_role instance)) (agents am) [],
      byStatus = fold (\<lambda>(i, instance). count_up (agent_status instance)) (agents am) []\<rparr>"

text \<open>The calls on the registry, as data, to speak about sequences of them.\<close>

datatype AgentCall =
    CreateAgent string nat AgentRole AgentConfig BaseAgent
  | ExecuteAgentStart string
  | ExecuteAgentFinish string "Failure + any"
  | RemoveAgent string

fun agentCall :: "AgentCall \<Rightarrow> AgentManager \<Rightarrow> AgentManager" where
  "agentCall (CreateAgent uuid now role cfg worker) am = snd (createAgent am uuid now role cfg worker)"
| "agentCall (ExecuteAgentStart i) am =
     (case executeAgent_start am i of Inl e \<Rightarrow> am | Inr am' \<Rightarrow> am')"
| "agentCall (ExecuteAgentFinish i outcome) am = executeAgent_finish am i outcome"
| "agentCall (RemoveAgent i) am = removeAgent am i"

section \<open>EventBus (core/eventBus.ts)\<close>

abbreviation SYSTEM_ERROR :: string where "SYSTEM_ERROR \<equiv> ''system.error''"
abbreviation PROJECT_REALIGN :: string where "PROJECT_REALIGN \<equiv> ''project.realign''"
abbreviation AGENT_CREATED :: string where "AGENT_CREATED \<equiv> ''agent.created''"
abbreviation AGENT_STARTED :: string where "AGENT_STARTED \<equiv> ''agent.started''"
abbreviation AGENT_COMPLETED :: string where "AGENT_COMPLETED \<equiv> ''agent.completed''"
abbreviation AGENT_FAILED :: string where "AGENT_FAILED \<equiv> ''agent.failed''"
abbreviation PHASE_REQUIREMENTS_START :: string where
  "PHASE_REQUIREMENTS_START \<equiv> ''phase.requirements.start''"
abbreviation PHASE_REQUIREMENTS_COMPLETE :: string where
  "PHASE_REQUIREMENTS_COMPLETE \<equiv> ''phase.requirements.complete''"
abbreviation PHASE_ARCHITECTURE_START :: string where
  "PHASE_ARCHITECTURE_START \<equiv> ''phase.architecture.start''"
abbreviation PHASE_ARCHITECTURE_COMPLETE :: string where
  "PHASE_ARCHITECTURE_COMPLETE \<equiv> ''phase.architecture.complete''"
abbreviation PHASE_DEVELOPMENT_START :: string where
  "PHASE_DEVELOPMENT_START \<equiv> ''phase.development.start''"
abbreviation PHASE_DEVELOPMENT_COMPLETE :: string where
  "PHASE_DEVELOPMENT_COMPLETE \<equiv> ''phase.development.complete''"
abbreviation PHASE_TESTING_START :: string where
  "PHASE_TESTING_START \<equiv> ''phase.testing.start''"
abbreviation PHASE_TESTING_COMPLETE :: string where
  "PHASE_TESTING_COMPLETE \<equiv> ''phase.testing.complete''"
abbreviation PHASE_DEVOPS_START :: string where
  "PHASE_DEVOPS_START \<equiv> ''phase.devops.start''"
abbreviation PHASE_DEVOPS_COMPLETE :: string where
  "PHASE_DEVOPS_COMPLETE \<equiv> ''phase.devops.complete''"
abbreviation PHASE_DOCUMENTATION_START :: string where
  "PHASE_DOCUMENTATION_START \<equiv> ''phase.documentation.start''"
abbreviation PHASE_DOCUMENTATION_COMPLETE :: string where
  "PHASE_DOCUMENTATION_COMPLETE \<equiv> ''phase.documentation.complete''"

text \<open>One record for the payload interfaces: the base fields and the optional fields of
  \<open>PhaseEventPayload\<close> and \<open>AgentEventPayload\<close>.\<close>

record EventPayload =
  timestamp :: nat
  source :: "string option"
  metadata :: "any option"
  phase :: "string option"
  result :: "any option"
  artifacts :: "any option"
  agentId :: "string option"
  agentRole :: "AgentRole option"
  data :: "any option"
  error :: "Failure option"

text \<open>
  The functions that the core subscribes. They are closures in the source; here each is
  named, and \<open>run_handler\<close> below gives its body: the six phase-completion listeners of
  \<open>AutoFlow.setupEventListeners\<close> (with their fixed phase name), the two listeners of
  \<open>AgentManager.setupEventListeners\<close>, and the temporary handler of the \<open>waitFor\<close> call
  whose promise has the given number.
\<close>

datatype Handler = PhaseCompleteListener string | SystemErrorListener | RealignListener
  | WaitForHandler nat

record Listener =
  listener_fn :: Handler
  listener_once :: bool

text \<open>
  The emitter is the \<open>eventemitter3\<close> package: per event, the listeners in subscription
  order. \<open>removeListener(event, fn, context, once)\<close> drops every listener of the event
  with that function, and only the one-time ones when \<open>once\<close> is set.
\<close>

type_synonym EventEmitter = "string \<Rightarrow> Listener list"

definition ee_on :: "EventEmitter \<Rightarrow> string \<Rightarrow> Handler \<Rightarrow> EventEmitter" where
  "ee_on em ev h = em(ev := em ev @ [\<lparr>listener_fn = h, listener_once = False\<rparr>])"

definition ee_once :: "EventEmitter \<Rightarrow> string \<Rightarrow> Handler \<Rightarrow> EventEmitter" where
  "ee_once em ev h = em(ev := em ev @ [\<lparr>listener_fn = h, listener_once = True\<rparr>])"

definition ee_removeListener :: "EventEmitter \<Rightarrow> string \<Rightarrow> Handler \<Rightarrow> bool \<Rightarrow> EventEmitter" where
  "ee_removeListener em ev h onlyOnce =
     em(ev := filter (\<lambda>l. listener_fn l \<noteq> h \<or> (onlyOnce \<and> \<not> listener_once l)) (em ev))"

record EventBus =
  emitter :: EventEmitter
  eventHistory :: "(string \<times> EventPayload) list"
  maxHistorySize :: nat

definition new_EventBus :: EventBus where
  "new_EventBus = \<lparr>emitter = (\<lambda>ev. []), eventHistory = [], maxHistorySize = 1000\<rparr>"

definition EventBus_on :: "EventBus \<Rightarrow> string \<Rightarrow> Handler \<Rightarrow> EventBus" where
  "EventBus_on b ev h = b\<lparr>emitter := ee_on (emitter b) ev h\<rparr>"

definition EventBus_once :: "EventBus \<Rightarrow> string \<Rightarrow> Handler \<Rightarrow> EventBus" where
  "EventBus_once b ev h = b\<lparr>emitter := ee_once (emitter b) ev h\<rparr>"

definition EventBus_off :: "EventBus \<Rightarrow> string \<Rightarrow> Handler \<Rightarrow> EventBus" where
  "EventBus_off b ev h = b\<lparr>emitter := ee_removeListener (emitter b) ev h False\<rparr>"

definition removeAllListeners :: "EventBus \<Rightarrow> EventBus" where
  "removeAllListeners b = b\<lparr>emitter := (\<lambda>ev. [])\<rparr>"

text \<open>\<open>push\<close>, then one \<open>shift\<close> if the array is longer than the maximum.\<close>

definition addToHistory :: "EventBus \<Rightarrow> string \<Rightarrow> EventPayload \<Rightarrow> EventBus" where
  "addToHistory b ev payload =
     (let h = eventHistory b @ [(ev, payload)]
      in b\<lparr>eventHistory := (if length h > maxHistorySize b then tl h else h)\<rparr>)"

definition getHistory :: "EventBus \<Rightarrow> string option \<Rightarrow> (string \<times> EventPayload) list" where
  "getHistory b filterEvent =
     (case filterEvent of
        None \<Rightarrow> eventHistory b
      | Some ev \<Rightarrow> if ev = [] then eventHistory b else filter (\<lambda>entry. fst entry = ev) (eventHistory b))"

definition clearHistory :: "EventBus \<Rightarrow> EventBus" where
  "clearHistory b = b\<lparr>eventHistory := []\<rparr>"

text \<open>\<open>if (!payload.timestamp) payload.timestamp = Date.now()\<close>\<close>

definition stamp :: "nat \<Rightarrow> EventPayload \<Rightarrow> EventPayload" where
  "stamp now payload = (if timestamp payload = 0 then payload\<lparr>timestamp := now\<rparr> else payload)"

text \<open>The history after a sequence of emissions, each with the clock reading at its time.\<close>

definition record_events :: "(nat \<times> string \<times> EventPayload) list \<Rightarrow> EventBus \<Rightarrow> EventBus" where
  "record_events es b = fold (\<lambda>(now, ev, payload) b. addToHistory b ev (stamp now payload)) es b"

definition emitted :: "(nat \<times> string \<times> EventPayload) list \<Rightarrow> (string \<times> EventPayload) list" where
  "emitted es = map (\<lambda>(now, ev, payload). (ev, stamp now payload)) es"

text \<open>
  The calls that change a bus, as data, to speak about every bus that the program can
  have: a bus is built by the constructor and changed by these calls only. \<open>Emit\<close> is
  what \<open>emit\<close> does to the bus itself, the entry in the history; what the listeners do to
  the bus, they do by calls of their own.
\<close>

datatype BusCall = On string Handler | Once string Handler | Off string Handler
  | Emit nat string EventPayload | ClearHistory | RemoveAllListeners

fun busCall :: "BusCall \<Rightarrow> EventBus \<Rightarrow> EventBus" where
  "busCall (On ev h) b = EventBus_on b ev h"
| "busCall (Once ev h) b = EventBus_once b ev h"
| "busCall (Off ev h) b = EventBus_off b ev h"
| "busCall (Emit now ev payload) b = addToHistory b ev (stamp now payload)"
| "busCall ClearHistory b = clearHistory b"
| "busCall RemoveAllListeners b = removeAllListeners b"

text \<open>The payload that AutoFlow builds for a phase: \<open>{timestamp, phase, source}\<close>.\<close>

definition phasePayload :: "nat \<Rightarrow> string \<Rightarrow> EventPayload" where
  "phasePayload now phaseName =
     \<lparr>timestamp = now, source = Some ''AutoFlow'', metadata = None, phase = Some phaseName,
      result = None, artifacts = None, agentId = None, agentRole = None, data = None,
      error = None\<rparr>"

text \<open>Five events on three channels, and a thousand and two events on one channel.\<close>

definition example_events :: "(nat \<times> string \<times> EventPayload) list" where
  "example_events =
     [(1, ''a'', phasePayload 1 ''p''), (2, ''b'', phasePayload 2 ''p''),
      (3, ''a'', phasePayload 3 ''p''), (4, ''c'', phasePayload 4 ''p''),
      (5, ''b'', phasePayload 5 ''p'')]"

definition example_many_events :: "(nat \<times> string \<times> EventPayload) list" where
  "example_many_events = map (\<lambda>i. (Suc i, ''a'', phasePayload (Suc i) ''p'')) [0..<1002]"

section \<open>AutoFlow (core/autoFlow.ts)\<close>

record WorkflowPhase =
  wp_name :: string
  agentRoles :: "AgentRole list"
  startEvent :: string
  completeEvent :: string
  nextPhase :: "string option"
  isParallel :: "bool option"

record AutoFlow =
  workflows :: "string \<rightharpoonup> WorkflowPhase list"
  currentPhase :: "string option"
  isRunning :: bool

definition defaultWorkflow :: "WorkflowPhase list" where
  "defaultWorkflow =
     [\<lparr>wp_name = ''requirements'', agentRoles = [R_REQUIREMENTS],
       startEvent = PHASE_REQUIREMENTS_START, completeEvent = PHASE_REQUIREMENTS_COMPLETE,
       nextPhase = Some ''architecture'', isParallel = None\<rparr>,
      \<lparr>wp_name = ''architecture'', agentRoles = [R_ARCHITECT],
       startEvent = PHASE_ARCHITECTURE_START, completeEvent = PHASE_ARCHITECTURE_COMPLETE,
       nextPhase = Some ''development'', isParallel = None\<rparr>,
      \<lparr>wp_name = ''development'', agentRoles = [R_BACKEND, R_FRONTEND, R_MOBILE, R_GAME],
       startEvent = PHASE_DEVELOPMENT_START, completeEvent = PHASE_DEVELOPMENT_COMPLETE,
       nextPhase = Some ''testing'', isParallel = Some True\<rparr>,
      \<lparr>wp_name = ''testing'', agentRoles = [R_TESTER],
       startEvent = PHASE_TESTING_START, completeEvent = PHASE_TESTING_COMPLETE,
       nextPhase = Some ''devops'', isParallel = None\<rparr>,
      \<lparr>wp_name = ''devops'', agentRoles = [R_DEVOPS],
       startEvent = PHASE_DEVOPS_START, completeEvent = PHASE_DEVOPS_COMPLETE,
       nextPhase = Some ''documentation'', isParallel = None\<rparr>,
      \<lparr>wp_name = ''documentation'', agentRoles = [R_DOCS],
       startEvent = PHASE_DOCUMENTATION_START, completeEvent = PHASE_DOCUMENTATION_COMPLETE,
       nextPhase = None, isParallel = None\<rparr>]"

definition initializeDefaultWorkflow :: "AutoFlow \<Rightarrow> AutoFlow" where
  "initializeDefaultWorkflow af = af\<lparr>workflows := (workflows af)(''default'' \<mapsto> defaultWorkflow)\<rparr>"

definition registerWorkflow :: "AutoFlow \<Rightarrow> string \<Rightarrow> WorkflowPhase list \<Rightarrow> AutoFlow" where
  "registerWorkflow af name phases' = af\<lparr>workflows := (workflows af)(name \<mapsto> phases')\<rparr>"

definition getCurrentPhase :: "AutoFlow \<Rightarrow> string option" where
  "getCurrentPhase af = currentPhase af"

definition isWorkflowRunning :: "AutoFlow \<Rightarrow> bool" where
  "isWorkflowRunning af = isRunning af"

definition reset :: "AutoFlow \<Rightarrow> AutoFlow" where
  "reset af = af\<lparr>currentPhase := None, isRunning := False\<rparr>"

text \<open>The table \<open>statusMap\<close> of \<open>proceedToNextPhase\<close>, and
  \<open>statusMap[nextPhaseName] || ProjectStatus.DEVELOPMENT\<close>.\<close>

definition statusMap :: "string \<rightharpoonup> ProjectStatus" where
  "statusMap = map_of
     [(''requirements'', REQUIREMENTS), (''architecture'', ARCHITECTURE),
      (''development'', DEVELOPMENT), (''testing'', TESTING), (''devops'', DEVOPS),
      (''documentation'', DOCUMENTATION)]"

definition mappedStatus :: "string \<Rightarrow> ProjectStatus" where
  "mappedStatus phaseName = (case statusMap phaseName of None \<Rightarrow> DEVELOPMENT | Some st \<Rightarrow> st)"

text \<open>The phase data that the engine writes when a phase starts and when it completes.\<close>

definition startedPhase :: "nat \<Rightarrow> string \<Rightarrow> PartialPhaseData" where
  "startedPhase now phaseName =
     \<lparr>set_name = Some phaseName, set_status = Some in_progress, set_startedAt = Some (Some now),
      set_completedAt = None, set_result = None, set_artifacts = None, set_notes = None\<rparr>"

definition completedPhase :: "nat \<Rightarrow> string \<Rightarrow> EventPayload \<Rightarrow> PartialPhaseData" where
  "completedPhase now phaseName payload =
     \<lparr>set_name = Some phaseName, set_status = Some completed, set_startedAt = None,
      set_completedAt = Some (Some now), set_result = Some (result payload),
      set_artifacts = Some (artifacts payload), set_notes = None\<rparr>"

text \<open>\<open>if (!nextPhaseName)\<close>: \<open>undefined\<close> and the empty string are falsy.\<close>

definition truthy :: "string option \<Rightarrow> string option" where
  "truthy x = (case x of None \<Rightarrow> None | Some n \<Rightarrow> if n = [] then None else Some n)"

section \<open>The running system\<close>

text \<open>
  The module-level singletons \<open>eventBus\<close>, \<open>memoryStore\<close>, \<open>agentManager\<close> and \<open>autoFlow\<close>,
  with the platform state that \<open>waitFor\<close> uses: the pending timers of \<open>setTimeout\<close> and
  the promises it has returned (promise \<open>k\<close> belongs to the \<open>k\<close>-th call, and so do timer
  \<open>k\<close> and the handler \<open>WaitForHandler k\<close>).
\<close>

datatype 'a Promise = Unsettled | Resolved 'a | Rejected Failure

record Timer =
  timer_id :: nat
  timer_event :: string
  timer_delay :: number

record System =
  eventBus :: EventBus
  memoryStore :: MemoryStore
  agentManager :: AgentManager
  autoFlow :: AutoFlow
  timers :: "Timer list"
  promises :: "EventPayload Promise list"

text \<open>\<open>resolve\<close> and \<open>reject\<close> settle a promise once; later calls do nothing.\<close>

definition settle :: "nat \<Rightarrow> EventPayload Promise \<Rightarrow> System \<Rightarrow> System" where
  "settle k outcome s =
     (if k < length (promises s) \<and> promises s ! k = Unsettled
      then s\<lparr>promises := (promises s)[k := outcome]\<rparr> else s)"

definition clearTimeout :: "nat \<Rightarrow> System \<Rightarrow> System" where
  "clearTimeout k s = s\<lparr>timers := filter (\<lambda>t. timer_id t \<noteq> k) (timers s)\<rparr>"

text \<open>\<open>waitFor\<close>: the timer is set only for a truthy timeout (neither absent nor 0 nor
  \<open>NaN\<close>), with the timeout as the delay given to \<open>setTimeout\<close>; then the handler is
  subscribed with \<open>once\<close>.\<close>

definition waitFor :: "System \<Rightarrow> string \<Rightarrow> number option \<Rightarrow> nat \<times> System" where
  "waitFor s ev timeout =
     (let k = length (promises s);
          s1 = s\<lparr>promises := promises s @ [Unsettled]\<rparr>;
          s2 = (case timeout of
                  None \<Rightarrow> s1
                | Some t \<Rightarrow>
                    if ToBoolean t
                    then s1\<lparr>timers := timers s1 @ [\<lparr>timer_id = k, timer_event = ev, timer_delay = t\<rparr>]\<rparr>
                    else s1)
      in (k, s2\<lparr>eventBus := EventBus_once (eventBus s2) ev (WaitForHandler k)\<rparr>))"

text \<open>The handler of \<open>waitFor\<close>: \<open>if (timer) clearTimeout(timer); resolve(payload)\<close>.\<close>

definition waitFor_handler :: "nat \<Rightarrow> System \<Rightarrow> EventPayload \<Rightarrow> System" where
  "waitFor_handler k s payload = settle k (Resolved payload) (clearTimeout k s)"

text \<open>The platform runs the callback of timer \<open>k\<close>, if it is still pending, which it does
  when the delay of the timer has passed: \<open>this.off(event, handler); reject(new Error(...))\<close>.\<close>

definition timer_fires :: "nat \<Rightarrow> System \<Rightarrow> System" where
  "timer_fires k s =
     (case find (\<lambda>t. timer_id t = k) (timers s) of
        None \<Rightarrow> s
      | Some t \<Rightarrow>
          (let s1 = clearTimeout k s;
               s2 = s1\<lparr>eventBus := EventBus_off (eventBus s1) (timer_event t) (WaitForHandler k)\<rparr>
           in settle k (Rejected (Error (''Timeout waiting for event: '' @ timer_event t))) s2))"

text \<open>
  \<open>emit\<close> calls the listeners synchronously, and a listener of AutoFlow emits again from
  inside the call: the listeners and \<open>proceedToNextPhase\<close> are async functions whose only
  \<open>await\<close> is on their last call, so each runs to its end before the emit that called it
  goes on. The functions that emit take the emit of the nested call as the parameter
  \<open>em\<close>; \<open>emit\<close> below closes the recursion, with fuel for the nesting depth (\<open>None\<close>:
  the nesting did not end within the fuel). The nesting has no end when a definition
  registered as "default" gives a phase a complete-event for its start-event; what the
  platform does when its call stack is used up is not described, and \<open>emit\<close> is \<open>None\<close>
  for every fuel then.
\<close>

type_synonym Emit = "System \<Rightarrow> string \<Rightarrow> EventPayload \<Rightarrow> System option"

definition proceedToNextPhase :: "Emit \<Rightarrow> nat \<Rightarrow> System \<Rightarrow> string \<Rightarrow> System option" where
  "proceedToNextPhase em now s currentPhaseName =
     (case workflows (autoFlow s) ''default'' of
        None \<Rightarrow> Some s
      | Some workflow \<Rightarrow>
          (case find (\<lambda>ph. wp_name ph = currentPhaseName) workflow of
             None \<Rightarrow> Some s
           | Some cur \<Rightarrow>
               (case truthy (nextPhase cur) of
                  None \<Rightarrow>
                    (let s1 = s\<lparr>autoFlow := (autoFlow s)\<lparr>isRunning := False\<rparr>\<rparr>
                     in case getCurrentProject (memoryStore s1) of
                          None \<Rightarrow> Some s1
                        | Some project \<Rightarrow>
                            Some (s1\<lparr>memoryStore :=
                              updateProjectStatus (memoryStore s1) now (pc_id project) COMPLETED\<rparr>))
                | Some nextPhaseName \<Rightarrow>
                    (case find (\<lambda>ph. wp_name ph = nextPhaseName) workflow of
                       None \<Rightarrow> Some s
                     | Some nxt \<Rightarrow>
                         (let s1 = s\<lparr>autoFlow := (autoFlow s)\<lparr>currentPhase := Some nextPhaseName\<rparr>\<rparr>;
                              s2 = (case getCurrentProject (memoryStore s1) of
                                      None \<Rightarrow> s1
                                    | Some project \<Rightarrow>
                                        s1\<lparr>memoryStore :=
                                          updatePhase
                                            (updateProjectStatus (memoryStore s1) now (pc_id project)
                                               (mappedStatus nextPhaseName))
                                            now (pc_id project) nextPhaseName
                                            (startedPhase now nextPhaseName)\<rparr>)
                          in em s2 (startEvent nxt) (phasePayload now nextPhaseName))))))"

text \<open>The six listeners of \<open>AutoFlow.setupEventListeners\<close> differ in the phase name only.\<close>

definition phaseCompleteListener ::
  "Emit \<Rightarrow> nat \<Rightarrow> string \<Rightarrow> System \<Rightarrow> EventPayload \<Rightarrow> System option" where
  "phaseCompleteListener em now phaseName s payload =
     (let s1 = (case getCurrentProject (memoryStore s) of
                  None \<Rightarrow> s
                | Some project \<Rightarrow>
                    s\<lparr>memoryStore := updatePhase (memoryStore s) now (pc_id project) phaseName
                                       (completedPhase now phaseName payload)\<rparr>)
      in proceedToNextPhase em now s1 phaseName)"

fun run_handler :: "Emit \<Rightarrow> nat \<Rightarrow> Handler \<Rightarrow> System \<Rightarrow> EventPayload \<Rightarrow> System option" where
  "run_handler em now (PhaseCompleteListener phaseName) s payload =
     phaseCompleteListener em now phaseName s payload"
| "run_handler em now SystemErrorListener s payload = Some s"
| "run_handler em now RealignListener s payload =
     Some (s\<lparr>agentManager := clearAgents (agentManager s)\<rparr>)"
| "run_handler em now (WaitForHandler k) s payload = Some (waitFor_handler k s payload)"

text \<open>The loop of the emitter over the listeners it found when the emit began; a
  one-time listener is removed before it is called.\<close>

definition remove_if_once :: "string \<Rightarrow> Listener \<Rightarrow> System \<Rightarrow> System" where
  "remove_if_once ev l s =
     (if listener_once l
      then s\<lparr>eventBus := (eventBus s)\<lparr>emitter :=
             ee_removeListener (emitter (eventBus s)) ev (listener_fn l) True\<rparr>\<rparr>
      else s)"

fun dispatch :: "Emit \<Rightarrow> nat \<Rightarrow> string \<Rightarrow> Listener list \<Rightarrow> System \<Rightarrow> EventPayload \<Rightarrow> System option" where
  "dispatch em now ev [] s payload = Some s"
| "dispatch em now ev (l # ls) s payload =
     (case run_handler em now (listener_fn l) (remove_if_once ev l s) payload of
        None \<Rightarrow> None
      | Some s2 \<Rightarrow> dispatch em now ev ls s2 payload)"

primrec emit :: "nat \<Rightarrow> nat \<Rightarrow> System \<Rightarrow> string \<Rightarrow> EventPayload \<Rightarrow> System option" where
  "emit 0 now s ev payload = None"
| "emit (Suc fuel) now s ev payload =
     (let payload' = stamp now payload;
          s1 = s\<lparr>eventBus := addToHistory (eventBus s) ev payload'\<rparr>
      in dispatch (emit fuel now) now ev (emitter (eventBus s1) ev) s1 payload')"

text \<open>
  \<open>startWorkflow\<close> returns the error it throws, if any, with the state it leaves (the
  flag \<open>isRunning\<close> is set before the project is looked up). Reading \<open>firstPhase.name\<close> of
  an empty definition is a TypeError.
\<close>

definition startWorkflow :: "nat \<Rightarrow> nat \<Rightarrow> System \<Rightarrow> string \<Rightarrow> (Failure option \<times> System) option" where
  "startWorkflow fuel now s workflowName =
     (case workflows (autoFlow s) workflowName of
        None \<Rightarrow> Some (Some (Error (''Workflow '' @ workflowName @ '' not found'')), s)
      | Some workflow \<Rightarrow>
          (let s1 = s\<lparr>autoFlow := (autoFlow s)\<lparr>isRunning := True\<rparr>\<rparr>
           in case getCurrentProject (memoryStore s1) of
                None \<Rightarrow> Some (Some (Error ''No active project found''), s1)
              | Some project \<Rightarrow>
                  (case workflow of
                     [] \<Rightarrow> Some (Some (TypeError ''Cannot read properties of undefined''), s1)
                   | firstPhase # rest \<Rightarrow>
                       (let s2 = s1\<lparr>autoFlow := (autoFlow s1)\<lparr>currentPhase := Some (wp_name firstPhase)\<rparr>\<rparr>;
                            s3 = s2\<lparr>memoryStore :=
                                   updatePhase
                                     (updateProjectStatus (memoryStore s2) now (pc_id project) REQUIREMENTS)
                                     now (pc_id project) (wp_name firstPhase)
                                     (startedPhase now (wp_name firstPhase))\<rparr>
                        in map_option (Pair None)
                             (emit fuel now s3 (startEvent firstPhase)
                                (phasePayload now (wp_name firstPhase)))))))"

text \<open>The constructors, in the order in which the modules are loaded.\<close>

definition AgentManager_setupEventListeners :: "EventBus \<Rightarrow> EventBus" where
  "AgentManager_setupEventListeners b =
     EventBus_on (EventBus_on b SYSTEM_ERROR SystemErrorListener) PROJECT_REALIGN RealignListener"

definition AutoFlow_setupEventListeners :: "EventBus \<Rightarrow> EventBus" where
  "AutoFlow_setupEventListeners b =
     EventBus_on (EventBus_on (EventBus_on (EventBus_on (EventBus_on (EventBus_on b
       PHASE_REQUIREMENTS_COMPLETE (PhaseCompleteListener ''requirements''))
       PHASE_ARCHITECTURE_COMPLETE (PhaseCompleteListener ''architecture''))
       PHASE_DEVELOPMENT_COMPLETE (PhaseCompleteListener ''development''))
       PHASE_TESTING_COMPLETE (PhaseCompleteListener ''testing''))
       PHASE_DEVOPS_COMPLETE (PhaseCompleteListener ''devops''))
       PHASE_DOCUMENTATION_COMPLETE (PhaseCompleteListener ''documentation'')"

definition new_AutoFlow :: AutoFlow where
  "new_AutoFlow = initializeDefaultWorkflow
     \<lparr>workflows = Map.empty, currentPhase = None, isRunning = False\<rparr>"

definition new_System :: "FileSystem \<Rightarrow> System" where
  "new_System d =
     \<lparr>eventBus = AutoFlow_setupEventListeners (AgentManager_setupEventListeners new_EventBus),
      memoryStore = new_MemoryStore ''./.autocursor'' d,
      agentManager = new_AgentManager,
      autoFlow = new_AutoFlow,
      timers = [],
      promises = []\<rparr>"

section \<open>The wiring of the listeners\<close>

text \<open>
  After the constructors have run, every event has the listeners of \<open>core_wiring\<close>,
  subscribed for good; \<open>waitFor\<close> adds and removes its temporary handlers beside them.
  \<open>wired\<close> says so of a bus; it holds in a new system and every operation but
  \<open>removeAllListeners\<close> keeps it. \<open>phase_listeners\<close> lists the six complete-events that
  AutoFlow subscribes to, with the phase name fixed in each listener. \<open>core_of\<close> is the
  state without the temporary handlers, the timers and the promises.
\<close>

fun is_waitFor :: "Handler \<Rightarrow> bool" where
  "is_waitFor (WaitForHandler k) = True"
| "is_waitFor h = False"

definition core_wiring :: "string \<Rightarrow> Handler list" where
  "core_wiring ev =
     (if ev = SYSTEM_ERROR then [SystemErrorListener]
      else if ev = PROJECT_REALIGN then [RealignListener]
      else if ev = PHASE_REQUIREMENTS_COMPLETE then [PhaseCompleteListener ''requirements'']
      else if ev = PHASE_ARCHITECTURE_COMPLETE then [PhaseCompleteListener ''architecture'']
      else if ev = PHASE_DEVELOPMENT_COMPLETE then [PhaseCompleteListener ''development'']
      else if ev = PHASE_TESTING_COMPLETE then [PhaseCompleteListener ''testing'']
      else if ev = PHASE_DEVOPS_COMPLETE then [PhaseCompleteListener ''devops'']
      else if ev = PHASE_DOCUMENTATION_COMPLETE then [PhaseCompleteListener ''documentation'']
      else [])"

definition permanent :: "Handler \<Rightarrow> Listener" where
  "permanent h = \<lparr>listener_fn = h, listener_once = False\<rparr>"

definition wired :: "EventBus \<Rightarrow> bool" where
  "wired b \<longleftrightarrow>
     (\<forall>ev. filter (\<lambda>l. \<not> is_waitFor (listener_fn l)) (emitter b ev) = map permanent (core_wiring ev))"

definition phase_listeners :: "(string \<times> string) list" where
  "phase_listeners =
     [(PHASE_REQUIREMENTS_COMPLETE, ''requirements''), (PHASE_ARCHITECTURE_COMPLETE, ''architecture''),
      (PHASE_DEVELOPMENT_COMPLETE, ''development''), (PHASE_TESTING_COMPLETE, ''testing''),
      (PHASE_DEVOPS_COMPLETE, ''devops''), (PHASE_DOCUMENTATION_COMPLETE, ''documentation'')]"

definition core_of :: "System \<Rightarrow> MemoryStore \<times> AgentManager \<times> AutoFlow \<times> (string \<times> EventPayload) list \<times> nat" where
  "core_of s = (memoryStore s, agentManager s, autoFlow s, eventHistory (eventBus s),
                maxHistorySize (eventBus s))"

text \<open>
  The definition stored as "default" gives no phase one of the six complete-events as
  its start-event. Then the handling of a complete-event ends with the start-event of the
  next phase, which no listener of the core answers; the built-in definition is such.
\<close>

definition starts_unsubscribed :: "AutoFlow \<Rightarrow> bool" where
  "starts_unsubscribed af =
     (case workflows af ''default'' of
        None \<Rightarrow> True
      | Some flow \<Rightarrow> list_all (\<lambda>ph. startEvent ph \<notin> set (map fst phase_listeners)) flow)"

section \<open>The current project and its phase records\<close>

text \<open>
  \<open>currentProjectIs\<close>: the store has a current project, registered under its own id.
\<close>

definition currentProjectIs :: "MemoryStore \<Rightarrow> ProjectContext \<Rightarrow> bool" where
  "currentProjectIs st project \<longleftrightarrow>
     currentProjectId st = Some (pc_id project) \<and> pc_id project \<noteq> []
     \<and> projects st (pc_id project) = Some project"

text \<open>The phase record that \<open>updatePhase\<close> writes.\<close>

definition writtenPhase :: "ProjectContext \<Rightarrow> string \<Rightarrow> PartialPhaseData \<Rightarrow> PhaseData" where
  "writtenPhase project phaseName u =
     spread (case phases project phaseName of
               None \<Rightarrow> \<lparr>ph_name = phaseName, ph_status = pending, startedAt = None,
                         completedAt = None, ph_result = None, ph_artifacts = None,
                         ph_notes = Some []\<rparr>
             | Some d \<Rightarrow> d) u"

text \<open>What a phase-completion listener does when the default definition has a next phase.\<close>

definition advanced :: "MemoryStore \<Rightarrow> nat \<Rightarrow> string \<Rightarrow> string \<Rightarrow> EventPayload \<Rightarrow> string \<Rightarrow> MemoryStore" where
  "advanced st now i nm payload nx =
     updatePhase
       (updateProjectStatus (updatePhase st now i nm (completedPhase now nm payload)) now i
          (mappedStatus nx))
       now i nx (startedPhase now nx)"

definition in_progress_phases :: "ProjectContext \<Rightarrow> string set" where
  "in_progress_phases project = {n. \<exists>d. phases project n = Some d \<and> ph_status d = in_progress}"

section \<open>Runs of the default workflow with the complete-events in order\<close>

text \<open>
  A run starts a new project with \<open>startWorkflow\<close> on the built-in definition and then
  publishes, each time, the complete-event of the phase that the engine holds as its
  current phase.
\<close>

inductive in_order_run :: "System \<Rightarrow> bool" where
  started:
    "wired (eventBus s0) \<Longrightarrow> workflows (autoFlow s0) ''default'' = Some defaultWorkflow \<Longrightarrow>
     uuid \<noteq> [] \<Longrightarrow>
     startWorkflow fuel now
       (s0\<lparr>memoryStore := snd (createProject (memoryStore s0) uuid t pid pname ts)\<rparr>) ''default''
       = Some (None, s) \<Longrightarrow>
     in_order_run s"
| completes:
    "in_order_run s \<Longrightarrow> currentPhase (autoFlow s) = Some nm \<Longrightarrow>
     (ce, nm) \<in> set phase_listeners \<Longrightarrow> emit fuel now s ce payload = Some s' \<Longrightarrow>
     in_order_run s'"

definition run_inv :: "System \<Rightarrow> bool" where
  "run_inv s \<longleftrightarrow> wired (eventBus s) \<and> workflows (autoFlow s) ''default'' = Some defaultWorkflow
     \<and> (\<exists>project. currentProjectIs (memoryStore s) project
           \<and> in_progress_phases project \<subseteq> set_option (currentPhase (autoFlow s)))"

section \<open>The state of a waitFor call\<close>

text \<open>
  For the call with promise \<open>k\<close>: its handler is \<open>registered\<close> on some event, its timer
  is \<open>pending_timer\<close>, and both are gone when it is \<open>cancelled\<close>. \<open>numbered\<close> says that
  the handlers and timers in the system belong to promises that exist, so that the next
  call gets a number of its own. \<open>done_with\<close>: the promise is settled with the given value
  and nothing of the call is left. \<open>armed\<close>: the call waits, with its handler on its event
  and its timer pending, or it has been resolved and nothing of it is left. \<open>emits_to\<close>:
  any number of emits, of any events, lead from one state to the other.
\<close>

definition registered :: "nat \<Rightarrow> System \<Rightarrow> bool" where
  "registered k s \<longleftrightarrow> (\<exists>e. WaitForHandler k \<in> listener_fn ` set (emitter (eventBus s) e))"

definition pending_timer :: "nat \<Rightarrow> System \<Rightarrow> bool" where
  "pending_timer k s \<longleftrightarrow> k \<in> timer_id ` set (timers s)"

definition cancelled :: "nat \<Rightarrow> System \<Rightarrow> bool" where
  "cancelled k s \<longleftrightarrow> \<not> registered k s \<and> \<not> pending_timer k s"

definition only_on :: "nat \<Rightarrow> string \<Rightarrow> System \<Rightarrow> bool" where
  "only_on k ev s \<longleftrightarrow>
     (\<forall>e. set (filter (\<lambda>l. listener_fn l = WaitForHandler k) (emitter (eventBus s) e))
            \<subseteq> (if e = ev then {\<lparr>listener_fn = WaitForHandler k, listener_once = True\<rparr>} else {}))"

definition numbered :: "System \<Rightarrow> bool" where
  "numbered s \<longleftrightarrow> \<not> (\<exists>k. length (promises s) \<le> k \<and> (registered k s \<or> pending_timer k s))"

definition same_waits :: "System \<Rightarrow> System \<Rightarrow> bool" where
  "same_waits s' s \<longleftrightarrow> emitter (eventBus s') = emitter (eventBus s) \<and> timers s' = timers s
     \<and> promises s' = promises s"

definition done_with :: "nat \<Rightarrow> EventPayload Promise \<Rightarrow> System \<Rightarrow> bool" where
  "done_with k v s \<longleftrightarrow> k < length (promises s) \<and> promises s ! k = v \<and> cancelled k s"

definition waiting_or_resolved :: "nat \<Rightarrow> string \<Rightarrow> System \<Rightarrow> bool" where
  "waiting_or_resolved k ev s \<longleftrightarrow> k < length (promises s) \<and> only_on k ev s
     \<and> (promises s ! k = Unsettled \<or> (\<exists>q. promises s ! k = Resolved q) \<and> cancelled k s)"

definition resolved :: "nat \<Rightarrow> string \<Rightarrow> System \<Rightarrow> bool" where
  "resolved k ev s \<longleftrightarrow> k < length (promises s) \<and> (\<exists>q. promises s ! k = Resolved q) \<and> cancelled k s"

definition armed :: "nat \<Rightarrow> string \<Rightarrow> number \<Rightarrow> System \<Rightarrow> bool" where
  "armed k ev t s \<longleftrightarrow> k < length (promises s) \<and> only_on k ev s
     \<and> (promises s ! k = Unsettled
          \<and> WaitForHandler k \<in> listener_fn ` set (emitter (eventBus s) ev)
          \<and> find (\<lambda>x. timer_id x = k) (timers s)
              = Some \<lparr>timer_id = k, timer_event = ev, timer_delay = t\<rparr>
        \<or> (\<exists>q. promises s ! k = Resolved q) \<and> cancelled k s)"

inductive emits_to :: "System \<Rightarrow> System \<Rightarrow> bool" where
  no_emit: "emits_to s s"
| one_more: "emits_to s r \<Longrightarrow> emit fuel now r e p = Some r' \<Longrightarrow> emits_to s r'"

section \<open>Concrete systems\<close>

text \<open>
  A new system in which a project has been created, and what is read off a state: the
  status of a phase record of the current project, the project status, the events in the
  history and the engine's current phase. \<open>custom_workflow\<close> is the custom definition of
  the README, completed with its second phase; \<open>qa_workflow\<close> has the single phase
  "testing".
\<close>

definition example_system :: System where
  "example_system =
     (new_System example_disk)\<lparr>memoryStore :=
        snd (createProject (memoryStore (new_System example_disk)) ''p1'' 1 ''web'' ''Web''
               example_techStack)\<rparr>"

definition example_team :: System where
  "example_team =
     example_system\<lparr>agentManager :=
       fold agentCall
         [CreateAgent ''a1'' 1 R_BACKEND
            \<lparr>cfg_role = R_BACKEND, capabilities = [], priority = 1, systemPrompt = None\<rparr> 0,
          CreateAgent ''a2'' 1 R_TESTER
            \<lparr>cfg_role = R_TESTER, capabilities = [], priority = 1, systemPrompt = None\<rparr> 1,
          ExecuteAgentStart ''a2'']
         new_AgentManager\<rparr>"

definition started :: "(Failure option \<times> System) option \<Rightarrow> System option" where
  "started r = (case r of Some (None, s) \<Rightarrow> Some s | _ \<Rightarrow> None)"

definition phaseStatusIn :: "System option \<Rightarrow> string \<Rightarrow> PhaseStatus option" where
  "phaseStatusIn r n =
     (case r of None \<Rightarrow> None
      | Some s \<Rightarrow> (case getCurrentProject (memoryStore s) of None \<Rightarrow> None
                   | Some project \<Rightarrow> map_option ph_status (phases project n)))"

definition projectStatusIn :: "System option \<Rightarrow> ProjectStatus option" where
  "projectStatusIn r =
     (case r of None \<Rightarrow> None
      | Some s \<Rightarrow> map_option pc_status (getCurrentProject (memoryStore s)))"

definition publishedIn :: "System option \<Rightarrow> string list" where
  "publishedIn r = (case r of None \<Rightarrow> [] | Some s \<Rightarrow> map fst (eventHistory (eventBus s)))"

definition currentPhaseIn :: "System option \<Rightarrow> string option" where
  "currentPhaseIn r = (case r of None \<Rightarrow> None | Some s \<Rightarrow> currentPhase (autoFlow s))"

definition example_started :: System where
  "example_started = the (started (startWorkflow 1 2 example_system ''default''))"

definition example_architecture :: System where
  "example_architecture =
     the (emit 2 3 example_started PHASE_REQUIREMENTS_COMPLETE (phasePayload 3 ''requirements''))"

definition example_out_of_order :: "System option" where
  "example_out_of_order =
     Option.bind (started (startWorkflow 1 2 example_system ''default''))
       (\<lambda>s. emit 2 3 s PHASE_DEVELOPMENT_COMPLETE (phasePayload 3 ''development''))"




definition qa_workflow :: "WorkflowPhase list" where
  "qa_workflow =
     [\<lparr>wp_name = ''testing'', agentRoles = [R_TESTER],
       startEvent = PHASE_TESTING_START, completeEvent = PHASE_TESTING_COMPLETE,
       nextPhase = None, isParallel = None\<rparr>]"

definition example_qa_started :: "System option" where
  "example_qa_started =
     started (startWorkflow 1 2
       (example_system\<lparr>autoFlow := registerWorkflow (autoFlow example_system) ''qa'' qa_workflow\<rparr>)
       ''qa'')"

definition example_qa_completed :: "System option" where
  "example_qa_completed =
     Option.bind example_qa_started
       (\<lambda>s. emit 2 3 s PHASE_TESTING_COMPLETE (phasePayload 3 ''testing''))"

definition example_wait_zero :: System where
  "example_wait_zero = snd (waitFor example_system ''user.message'' (Some (Finite 0)))"

definition example_wait_NaN :: System where
  "example_wait_NaN = snd (waitFor example_system ''user.message'' (Some NaN))"

definition example_wait :: System where
  "example_wait = snd (waitFor example_system ''user.message'' (Some (Finite 5000)))"

section \<open>Properties of the MemoryStore\<close>

lemma persist_projects [simp]: "projects (persist st i) = projects st"
  by (simp add: persist_def split: option.splits)

lemma persist_path [simp]: "persistencePath (persist st i) = persistencePath st"
  by (simp add: persist_def split: option.splits)

lemma persist_ioFails [simp]: "ioFails (disk (persist st i)) = ioFails (disk st)"
  by (simp add: persist_def split: option.splits)

lemma filePath_persist [simp]: "filePath (persist st i) j = filePath st j"
  by (simp add: filePath_def)

lemma persist_file:
  "projects st i = Some p \<Longrightarrow> \<not> ioFails (disk st) \<Longrightarrow>
   files (disk (persist st i)) (filePath st i) = Some (JSON_stringify p)"
  by (simp add: persist_def)

lemma mirrored_persist:
  "projects st i \<noteq> None \<Longrightarrow> \<not> ioFails (disk st) \<Longrightarrow> mirrored (persist st i) i"
  by (auto simp: mirrored_def persist_file)

lemma mutate_ioFails [simp]: "ioFails (disk (mutate i m st)) = ioFails (disk st)"
  by (cases "(i, m, st)" rule: mutate.cases)
     (simp_all add: updateProjectStatus_def updatePhase_def storeArtifact_def
        addConversation_def updateMetadata_def Let_def split: option.splits)

lemma mutate_mirrored:
  assumes "mirrored st i" and "\<not> ioFails (disk st)"
  shows "mirrored (mutate i m st) i"
proof -
  from assms(1) obtain p where p: "projects st i = Some p"
    by (auto simp: mirrored_def)
  show ?thesis
    using p assms(2)
    by (cases "(i, m, st)" rule: mutate.cases)
       (simp_all add: updateProjectStatus_def updatePhase_def storeArtifact_def
          addConversation_def updateMetadata_def Let_def mirrored_persist)
qed

lemma fold_mutate_mirrored:
  "mirrored st i \<Longrightarrow> \<not> ioFails (disk st) \<Longrightarrow> mirrored (fold (mutate i) ms st) i"
  by (induction ms arbitrary: st) (simp_all add: mutate_mirrored)

lemma fold_mutate_ioFails: "ioFails (disk (fold (mutate i) ms st)) = ioFails (disk st)"
  by (induction ms arbitrary: st) simp_all

lemma createProject_mirrored:
  "\<not> ioFails (disk st) \<Longrightarrow> mirrored (snd (createProject st uuid now pid pname ts)) uuid"
  by (simp add: createProject_def Let_def mirrored_persist)

text \<open>JSON data comes back from its JSON text.\<close>

lemma update_fresh: "k \<notin> fst ` set acc \<Longrightarrow> AList.update k v acc = acc @ [(k, v)]"
  by (induction acc) auto

lemma fold_update_distinct:
  "distinct (map fst (acc @ kvs)) \<Longrightarrow> fold (\<lambda>(k, v). AList.update k v) kvs acc = acc @ kvs"
proof (induction kvs arbitrary: acc)
  case Nil
  then show ?case by simp
next
  case (Cons kv kvs)
  obtain k v where kv: "kv = (k, v)" by (cases kv)
  have "k \<notin> fst ` set acc"
    using Cons.prems by (auto simp: kv)
  then have u: "AList.update k v acc = acc @ [(k, v)]"
    by (rule update_fresh)
  have "distinct (map fst ((acc @ [(k, v)]) @ kvs))"
    using Cons.prems by (simp add: kv)
  from Cons.IH [OF this] show ?case
    by (simp add: kv u)
qed

lemma last_wins_distinct: "distinct (map fst kvs) \<Longrightarrow> last_wins kvs = kvs"
  using fold_update_distinct [of "[]" kvs] by (simp add: last_wins_def)

lemma map_filter_props:
  assumes "\<And>k v. (k, v) \<in> set kvs \<Longrightarrow> \<exists>j. S v = Some j \<and> P j = v"
  shows "map (\<lambda>(k, j). (k, P j))
           (List.map_filter (\<lambda>(k, j). map_option (Pair k) j) (map (\<lambda>(k, v). (k, S v)) kvs)) = kvs"
  using assms
proof (induction kvs)
  case Nil
  then show ?case by (simp add: List.map_filter_simps)
next
  case (Cons kv kvs)
  obtain k v where kv: "kv = (k, v)" by (cases kv)
  from Cons.prems [of k v] obtain j where j: "S v = Some j" "P j = v"
    by (auto simp: kv)
  have "map (\<lambda>(k, j). (k, P j))
           (List.map_filter (\<lambda>(k, j). map_option (Pair k) j) (map (\<lambda>(k, v). (k, S v)) kvs)) = kvs"
    by (rule Cons.IH) (use Cons.prems in auto)
  then show ?case
    by (simp add: kv j List.map_filter_simps)
qed

lemma map_elements:
  assumes "\<And>x. x \<in> set xs \<Longrightarrow> \<exists>j. S x = Some j \<and> P j = x"
  shows "map P (map (\<lambda>x. case S x of None \<Rightarrow> d | Some j \<Rightarrow> j) xs) = xs"
  using assms
proof (induction xs)
  case Nil
  then show ?case by simp
next
  case (Cons x xs)
  from Cons.prems [of x] obtain j where j: "S x = Some j" "P j = x" by auto
  have "map P (map (\<lambda>x. case S x of None \<Rightarrow> d | Some j \<Rightarrow> j) xs) = xs"
    by (rule Cons.IH) (use Cons.prems in auto)
  then show ?case by (simp add: j)
qed

lemma JSON_value_roundtrip:
  "is_JSON v \<Longrightarrow> \<exists>j. JSON_stringify_value v = Some j \<and> JSON_parse_value j = v"
proof (induction v rule: JSON_stringify_value.induct)
  case (8 xs)
  have "map JSON_parse_value
          (map (\<lambda>x. case JSON_stringify_value x of None \<Rightarrow> JNull | Some j \<Rightarrow> j) xs) = xs"
    by (rule map_elements) (use 8 in \<open>auto simp: list_all_iff\<close>)
  then show ?case by simp
next
  case (9 kvs)
  have "map (\<lambda>(k, j). (k, JSON_parse_value j))
           (List.map_filter (\<lambda>(k, j). map_option (Pair k) j)
              (map (\<lambda>(k, v). (k, JSON_stringify_value v)) kvs)) = kvs"
    by (rule map_filter_props) (use 9 in \<open>auto simp: list_all_iff\<close>)
  then show ?case
    using 9(2) by (simp add: last_wins_distinct)
qed (auto split: number.splits)

lemma JSON_field_roundtrip:
  "JSON_field (Some x) \<Longrightarrow> map_option JSON_parse_value (Option.bind x JSON_stringify_value) = x"
  using JSON_value_roundtrip by (cases x) auto

lemma JSON_map_roundtrip:
  assumes "\<forall>k v. m k = Some v \<longrightarrow> is_JSON v"
  shows "(\<lambda>k. map_option JSON_parse_value (Option.bind (m k) JSON_stringify_value)) = m"
proof
  fix k
  show "map_option JSON_parse_value (Option.bind (m k) JSON_stringify_value) = m k"
    using assms JSON_field_roundtrip [of "m k"] by (cases "m k") auto
qed

lemma phase_roundtrip:
  "JSON_field (Some (ph_result d)) \<Longrightarrow> JSON_field (Some (ph_artifacts d)) \<Longrightarrow>
   parse_phase (stringify_phase d) = d"
  by (simp add: parse_phase_def stringify_phase_def JSON_field_roundtrip)

lemma entry_roundtrip:
  "JSON_field (Some (ce_metadata e)) \<Longrightarrow> parse_entry (stringify_entry e) = e"
  by (simp add: parse_entry_def stringify_entry_def JSON_field_roundtrip)

lemma JSON_roundtrip:
  assumes "holds_JSON p"
  shows "JSON_parse (JSON_stringify p) = Some p"
proof -
  have ph: "(\<lambda>k. map_option parse_phase (map_option stringify_phase (phases p k))) = phases p"
  proof
    fix k
    show "map_option parse_phase (map_option stringify_phase (phases p k)) = phases p k"
      using assms by (cases "phases p k") (auto simp: holds_JSON_def phase_roundtrip)
  qed
  have ar: "(\<lambda>k. map_option JSON_parse_value (Option.bind (pc_artifacts p k) JSON_stringify_value))
            = pc_artifacts p"
    by (rule JSON_map_roundtrip) (use assms in \<open>simp add: holds_JSON_def\<close>)
  have me: "(\<lambda>k. map_option JSON_parse_value (Option.bind (pc_metadata p k) JSON_stringify_value))
            = pc_metadata p"
    by (rule JSON_map_roundtrip) (use assms in \<open>simp add: holds_JSON_def\<close>)
  have co: "map (parse_entry \<circ> stringify_entry) (conversationHistory p) = conversationHistory p"
    using assms by (simp add: holds_JSON_def entry_roundtrip map_idI)
  show ?thesis
    by (simp add: JSON_stringify_def ph ar me co)
qed

text \<open>The mutating calls that hand over JSON data keep the opaque values JSON data.\<close>

lemma spread_JSON:
  assumes "JSON_field (Some (ph_result d))" "JSON_field (Some (ph_artifacts d))"
    and "JSON_field (set_result u)" "JSON_field (set_artifacts u)"
  shows "JSON_field (Some (ph_result (spread d u))) \<and> JSON_field (Some (ph_artifacts (spread d u)))"
  using assms by (auto simp: spread_def split: option.splits)

lemma mutate_holds_JSON:
  assumes p: "projects st i = Some p" and h: "holds_JSON p" and m: "JSON_mutation m"
  shows "\<exists>p'. projects (mutate i (now, m) st) i = Some p' \<and> holds_JSON p'"
proof (cases m)
  case (UpdateProjectStatus status)
  then show ?thesis
    using p h by (simp add: updateProjectStatus_def holds_JSON_def)
next
  case (UpdatePhase phaseName phaseData)
  let ?d = "case phases p phaseName of
              None \<Rightarrow> \<lparr>ph_name = phaseName, ph_status = pending, startedAt = None,
                        completedAt = None, ph_result = None, ph_artifacts = None,
                        ph_notes = Some []\<rparr>
            | Some d \<Rightarrow> d"
  have d: "JSON_field (Some (ph_result ?d))" "JSON_field (Some (ph_artifacts ?d))"
    using h by (auto simp: holds_JSON_def split: option.splits)
  have u: "JSON_field (set_result phaseData)" "JSON_field (set_artifacts phaseData)"
    using m UpdatePhase by simp_all
  from spread_JSON [OF d u]
  show ?thesis
    using p h UpdatePhase by (simp add: updatePhase_def Let_def holds_JSON_def)
next
  case (StoreArtifact k v)
  then show ?thesis
    using p h m by (simp add: storeArtifact_def holds_JSON_def)
next
  case (AddConversation role msg meta)
  then show ?thesis
    using p h m by (simp add: addConversation_def holds_JSON_def)
next
  case (UpdateMetadata k v)
  then show ?thesis
    using p h m by (simp add: updateMetadata_def holds_JSON_def)
qed

lemma fold_mutate_holds_JSON:
  assumes "\<forall>m\<in>set ms. JSON_mutation (snd m)"
  shows "projects st i = Some p \<Longrightarrow> holds_JSON p \<Longrightarrow>
         \<exists>p'. projects (fold (mutate i) ms st) i = Some p' \<and> holds_JSON p'"
  using assms
proof (induction ms arbitrary: st p)
  case Nil
  then show ?case by simp
next
  case (Cons m ms)
  obtain now c where m: "m = (now, c)" by (cases m)
  have "JSON_mutation c"
    using Cons.prems(3) by (simp add: m)
  from mutate_holds_JSON [OF Cons.prems(1,2) this, of now]
  obtain p1 where p1: "projects (mutate i (now, c) st) i = Some p1" "holds_JSON p1"
    by blast
  have "\<forall>m\<in>set ms. JSON_mutation (snd m)"
    using Cons.prems(3) by simp
  from Cons.IH [OF p1 this] show ?case
    by (simp add: m)
qed

lemma createProject_holds_JSON:
  "\<exists>p. projects (snd (createProject st uuid now pid pname ts)) uuid = Some p \<and> holds_JSON p"
  by (simp add: createProject_def Let_def holds_JSON_def)

text \<open>Loading a mirrored project of JSON data, into the store itself and into a new store on
  the same directory.\<close>

lemma loadProject_mirrored:
  assumes "mirrored st i" and "\<not> ioFails (disk st)" and "projects st i = Some p" and "holds_JSON p"
  shows "fst (loadProject st i) = Some p" "snd (loadProject st i) = st"
    "fst (loadProject (new_MemoryStore (persistencePath st) (disk st)) i) = Some p"
    "projects (snd (loadProject (new_MemoryStore (persistencePath st) (disk st)) i)) i = Some p"
proof -
  from assms(1,3) have f: "files (disk st) (filePath st i) = Some (JSON_stringify p)"
    by (auto simp: mirrored_def)
  have r: "JSON_parse (JSON_stringify p) = Some p"
    by (rule JSON_roundtrip [OF assms(4)])
  have u: "(projects st)(i \<mapsto> p) = projects st"
    using assms(3) by (simp add: map_upd_triv)
  show "fst (loadProject st i) = Some p" "snd (loadProject st i) = st"
    using f r u assms(2) by (simp_all add: loadProject_def)
  have fp: "filePath (new_MemoryStore (persistencePath st) (disk st)) i = filePath st i"
    by (simp add: filePath_def new_MemoryStore_def)
  show "fst (loadProject (new_MemoryStore (persistencePath st) (disk st)) i) = Some p"
    "projects (snd (loadProject (new_MemoryStore (persistencePath st) (disk st)) i)) i = Some p"
    using f r assms(2) by (simp_all add: loadProject_def fp) (simp_all add: new_MemoryStore_def)
qed

text \<open>
  C7 (as amended). Round trip: create a project and apply any sequence of mutating calls
  to it (status, phase, artifact, conversation, metadata), each of which persists. If the
  file system calls succeed and the calls hand over JSON data, under names that are not
  inherited, then reloading the project from the durable storage gives the in-memory
  context, field for field: in a new store on the same directory, which then holds the
  context, and in the store itself, which the reload leaves as it was.
\<close>

theorem persist_roundtrip:
  assumes "\<not> ioFails (disk st)"
    and "\<forall>m\<in>set ms. JSON_mutation (snd m)"
    and "st' = fold (mutate uuid) ms (snd (createProject st uuid now pid pname ts))"
  shows "projects st' uuid \<noteq> None
       \<and> fst (loadProject (new_MemoryStore (persistencePath st') (disk st')) uuid) = projects st' uuid
       \<and> projects (snd (loadProject (new_MemoryStore (persistencePath st') (disk st')) uuid)) uuid
           = projects st' uuid
       \<and> fst (loadProject st' uuid) = projects st' uuid
       \<and> snd (loadProject st' uuid) = st'"
proof -
  let ?s0 = "snd (createProject st uuid now pid pname ts)"
  have c: "mirrored ?s0 uuid"
    by (rule createProject_mirrored [OF assms(1)])
  have io0: "\<not> ioFails (disk ?s0)"
    using assms(1) by (simp add: createProject_def Let_def)
  have m: "mirrored st' uuid"
    unfolding assms(3) by (rule fold_mutate_mirrored [OF c io0])
  have io: "\<not> ioFails (disk st')"
    unfolding assms(3) using io0 by (simp add: fold_mutate_ioFails)
  obtain p0 where p0: "projects ?s0 uuid = Some p0" "holds_JSON p0"
    using createProject_holds_JSON by blast
  from fold_mutate_holds_JSON [OF assms(2) p0]
  obtain p where p: "projects st' uuid = Some p" "holds_JSON p"
    unfolding assms(3) by blast
  from loadProject_mirrored [OF m io p] p(1) show ?thesis
    by simp
qed

text \<open>
  C10. For a project id that is not in the in-memory map, each mutating operation of the
  store returns the store unchanged, durable records included; none of them has an error
  branch.
\<close>

theorem mutators_unknown_project_noop:
  assumes "projects st projectId = None"
  shows "updateProjectStatus st now projectId status = st
       \<and> updatePhase st now projectId phaseName phaseData = st
       \<and> storeArtifact st now projectId k v = st
       \<and> addConversation st now projectId role msg meta = st
       \<and> updateMetadata st now projectId k v = st"
  using assms
  by (simp add: updateProjectStatus_def updatePhase_def storeArtifact_def
      addConversation_def updateMetadata_def)


theorem persist_roundtrip_witness:
  "\<not> ioFails (disk (new_MemoryStore ''./.autocursor'' example_disk))
   \<and> list_all (\<lambda>m. JSON_mutation (snd m)) example_mutations
   \<and> (let st' = fold (mutate ''p1'') example_mutations
                (snd (createProject (new_MemoryStore ''./.autocursor'' example_disk)
                        ''p1'' 1 ''web'' ''Web'' example_techStack))
      in projects st' ''p1'' \<noteq> None
         \<and> fst (loadProject (new_MemoryStore (persistencePath st') (disk st')) ''p1'')
             = projects st' ''p1''
         \<and> fst (loadProject st' ''p1'') = projects st' ''p1''
         \<and> snd (loadProject st' ''p1'') = st')"
proof -
  have io: "\<not> ioFails (disk (new_MemoryStore ''./.autocursor'' example_disk))"
    by (simp add: new_MemoryStore_def example_disk_def)
  have js: "\<forall>m\<in>set example_mutations. JSON_mutation (snd m)"
    by (simp add: example_mutations_def Object_prototype_def)
  from persist_roundtrip [OF io js refl, of "''p1''" 1 "''web''" "''Web''" example_techStack]
  show ?thesis
    using io js by (simp add: Let_def list_all_iff)
qed

text \<open>
  An artifact that is not JSON data is not given back: the number \<open>NaN\<close> is stored as an
  artifact of a new project, and a new store on the same directory loads the project
  with \<open>null\<close> in its place.
\<close>

theorem persist_roundtrip_loses_NaN:
  "map_option (\<lambda>project. pc_artifacts project ''score'') (projects example_lossy ''p1'')
     = Some (Some (Number NaN))
   \<and> map_option (\<lambda>project. pc_artifacts project ''score'') example_reloaded = Some (Some Null)
   \<and> example_reloaded \<noteq> projects example_lossy ''p1''"
proof -
  have a: "map_option (\<lambda>project. pc_artifacts project ''score'') (projects example_lossy ''p1'')
     = Some (Some (Number NaN))"
    by (simp add: example_lossy_def storeArtifact_def createProject_def Let_def
        new_MemoryStore_def)
  have b: "map_option (\<lambda>project. pc_artifacts project ''score'') example_reloaded = Some (Some Null)"
    by (simp add: example_reloaded_def example_lossy_def storeArtifact_def createProject_def
        Let_def new_MemoryStore_def example_disk_def loadProject_def persist_def filePath_def
        JSON_stringify_def)
  have "example_reloaded \<noteq> projects example_lossy ''p1''"
  proof
    assume "example_reloaded = projects example_lossy ''p1''"
    with a b have "Some (Some (Number NaN)) = Some (Some Null)" by simp
    then show False by simp
  qed
  with a b show ?thesis by simp
qed

theorem mutators_unknown_project_noop_witness:
  "projects (new_MemoryStore ''./.autocursor'' example_disk) ''nobody'' = None \<and>
   updateProjectStatus (new_MemoryStore ''./.autocursor'' example_disk)
     7 ''nobody'' COMPLETED
   = new_MemoryStore ''./.autocursor'' example_disk"
  using mutators_unknown_project_noop
    [of "new_MemoryStore ''./.autocursor'' example_disk" "''nobody''" 7 COMPLETED]
  by (simp add: new_MemoryStore_def example_disk_def)

section \<open>Properties of the AgentManager\<close>

lemma count_up_sum:
  "distinct (map fst m) \<Longrightarrow> sum_list (map snd (count_up k m)) = Suc (sum_list (map snd m))"
  unfolding count_up_def
  by (induction m) (auto simp: image_iff)

lemma count_up_distinct: "distinct (map fst m) \<Longrightarrow> distinct (map fst (count_up k m))"
  by (simp add: count_up_def distinct_update)

lemma fold_count_sum:
  "distinct (map fst m) \<Longrightarrow>
   sum_list (map snd (fold (\<lambda>(i, instance). count_up (f instance)) xs m))
     = sum_list (map snd m) + length xs"
  by (induction xs arbitrary: m) (auto simp: count_up_sum count_up_distinct)

lemma getStatistics_sum:
  "sum_list (map snd (byStatus (getStatistics am))) = length (agents am)"
  by (simp add: getStatistics_def fold_count_sum)

lemma agentCall_distinct:
  "distinct (map fst (agents am)) \<Longrightarrow> distinct (map fst (agents (agentCall c am)))"
  by (cases c)
     (auto simp: createAgent_def executeAgent_start_def executeAgent_finish_def removeAgent_def
        Let_def distinct_update distinct_delete split: option.splits)

lemma fold_agentCall_distinct:
  "distinct (map fst (agents am)) \<Longrightarrow> distinct (map fst (agents (fold agentCall cs am)))"
  by (induction cs arbitrary: am) (simp_all add: agentCall_distinct)

text \<open>
  C8. In every state of the registry the per-status counts of \<open>getStatistics\<close> sum to
  its total; and after every sequence of createAgent, executeAgent (its two steps, in any
  interleaving) and removeAgent calls on a new registry, the total is the number of
  tracked agents (the entries of the map, whose ids are distinct).
\<close>

theorem getStatistics_counts_sum_to_total:
  "sum_list (map snd (byStatus (getStatistics am))) = total (getStatistics am)
   \<and> sum_list (map snd (byStatus (getStatistics (fold agentCall calls new_AgentManager))))
     = total (getStatistics (fold agentCall calls new_AgentManager))
   \<and> total (getStatistics (fold agentCall calls new_AgentManager))
     = length (agents (fold agentCall calls new_AgentManager))
   \<and> distinct (map fst (agents (fold agentCall calls new_AgentManager)))"
proof -
  have "distinct (map fst (agents new_AgentManager))"
    by (simp add: new_AgentManager_def)
  then have "distinct (map fst (agents (fold agentCall calls new_AgentManager)))"
    by (rule fold_agentCall_distinct)
  then show ?thesis
    by (simp add: getStatistics_sum) (simp add: getStatistics_def)
qed

section \<open>Properties of the EventBus history\<close>

lemma addToHistory_max [simp]: "maxHistorySize (addToHistory b ev p) = maxHistorySize b"
  by (simp add: addToHistory_def Let_def)

lemma addToHistory_emitter [simp]: "emitter (addToHistory b ev p) = emitter b"
  by (simp add: addToHistory_def Let_def)

lemma addToHistory_drop:
  "length (eventHistory b) \<le> maxHistorySize b \<Longrightarrow>
   eventHistory (addToHistory b ev p) =
     drop (Suc (length (eventHistory b)) - maxHistorySize b) (eventHistory b @ [(ev, p)])"
  by (cases "eventHistory b") (auto simp: addToHistory_def Let_def Suc_diff_le)

lemma addToHistory_length:
  "length (eventHistory b) \<le> maxHistorySize b \<Longrightarrow>
   length (eventHistory (addToHistory b ev p)) \<le> maxHistorySize b"
  by (auto simp: addToHistory_def Let_def)

lemma addToHistory_room:
  "length (eventHistory b) < maxHistorySize b \<Longrightarrow>
   eventHistory (addToHistory b ev p) = eventHistory b @ [(ev, p)]"
  by (auto simp: addToHistory_def Let_def)

lemma record_events_max [simp]: "maxHistorySize (record_events es b) = maxHistorySize b"
  unfolding record_events_def by (induction es arbitrary: b) auto

lemma drop_append_le: "k \<le> length xs \<Longrightarrow> drop k xs @ ys = drop k (xs @ ys)"
  by simp

lemma record_events_drop:
  "length (eventHistory b) \<le> maxHistorySize b \<Longrightarrow>
   eventHistory (record_events es b) =
     drop (length (eventHistory b) + length es - maxHistorySize b) (eventHistory b @ emitted es)"
proof (induction es arbitrary: b)
  case Nil
  then show ?case by (simp add: record_events_def emitted_def)
next
  case (Cons e es)
  obtain now ev p where e: "e = (now, ev, p)" by (cases e)
  let ?b = "addToHistory b ev (stamp now p)"
  have len: "length (eventHistory ?b) \<le> maxHistorySize ?b"
    using Cons.prems by (simp add: addToHistory_length)
  have "eventHistory (record_events (e # es) b) = eventHistory (record_events es ?b)"
    by (simp add: record_events_def e)
  also have "\<dots> = drop (length (eventHistory ?b) + length es - maxHistorySize b)
                    (eventHistory ?b @ emitted es)"
    using Cons.IH [OF len] by simp
  also have "\<dots> = drop (length (eventHistory b) + length (e # es) - maxHistorySize b)
                    (eventHistory b @ emitted (e # es))"
  proof -
    let ?all = "eventHistory b @ [(ev, stamp now p)]"
    let ?k = "Suc (length (eventHistory b)) - maxHistorySize b"
    have h: "eventHistory ?b = drop ?k ?all"
      by (rule addToHistory_drop [OF Cons.prems])
    have k: "?k \<le> length ?all" by simp
    have app: "drop ?k ?all @ emitted es = drop ?k (?all @ emitted es)"
      by (rule drop_append_le [OF k])
    have ar: "length (drop ?k ?all) + length es - maxHistorySize b + ?k
              = length (eventHistory b) + length (e # es) - maxHistorySize b"
      using Cons.prems by auto
    have em: "?all @ emitted es = eventHistory b @ emitted (e # es)"
      by (simp add: emitted_def e)
    show ?thesis
      unfolding h app drop_drop ar em ..
  qed
  finally show ?case .
qed

lemma busCall_bounded:
  "maxHistorySize b = 1000 \<and> length (eventHistory b) \<le> 1000 \<Longrightarrow>
   maxHistorySize (busCall c b) = 1000 \<and> length (eventHistory (busCall c b)) \<le> 1000"
  by (cases c)
     (auto simp: EventBus_on_def EventBus_once_def EventBus_off_def clearHistory_def
        removeAllListeners_def addToHistory_def Let_def)

lemma fold_busCall_bounded:
  "maxHistorySize b = 1000 \<and> length (eventHistory b) \<le> 1000 \<Longrightarrow>
   maxHistorySize (fold busCall cs b) = 1000 \<and> length (eventHistory (fold busCall cs b)) \<le> 1000"
proof (induction cs arbitrary: b)
  case Nil
  then show ?case by simp
next
  case (Cons c cs)
  have "maxHistorySize (busCall c b) = 1000 \<and> length (eventHistory (busCall c b)) \<le> 1000"
    by (rule busCall_bounded [OF Cons.prems])
  from Cons.IH [OF this] show ?case by simp
qed

text \<open>
  C4 (as amended). The capacity of the history is 1000 in a bus built by the constructor
  and no call changes it. In every bus that the calls lead to from a new one, the history
  holds at most 1000 entries, and after any further sequence of emissions it holds the
  most recent entries of what it held and what was emitted, as many as 1000, in emission
  order, the oldest having been dropped first.
\<close>

theorem history_keeps_last_1000:
  "maxHistorySize (fold busCall cs new_EventBus) = 1000
   \<and> length (eventHistory (fold busCall cs new_EventBus)) \<le> 1000
   \<and> eventHistory (record_events es (fold busCall cs new_EventBus))
       = drop (length (eventHistory (fold busCall cs new_EventBus)) + length es - 1000)
           (eventHistory (fold busCall cs new_EventBus) @ emitted es)
   \<and> eventHistory (record_events es new_EventBus) = drop (length es - 1000) (emitted es)"
proof -
  let ?b = "fold busCall cs new_EventBus"
  have n: "maxHistorySize new_EventBus = 1000 \<and> length (eventHistory new_EventBus) \<le> 1000"
    by (simp add: new_EventBus_def)
  have b: "maxHistorySize ?b = 1000 \<and> length (eventHistory ?b) \<le> 1000"
    by (rule fold_busCall_bounded [OF n])
  have "eventHistory (record_events es ?b)
          = drop (length (eventHistory ?b) + length es - maxHistorySize ?b)
              (eventHistory ?b @ emitted es)"
    by (rule record_events_drop) (use b in simp)
  moreover have "eventHistory (record_events es new_EventBus)
          = drop (length (eventHistory new_EventBus) + length es - maxHistorySize new_EventBus)
              (eventHistory new_EventBus @ emitted es)"
    by (rule record_events_drop) (use n in simp)
  ultimately show ?thesis
    using b by (simp add: new_EventBus_def)
qed

text \<open>
  A thousand and two events on a new bus: the first two are dropped.
\<close>

theorem history_keeps_last_1000_witness:
  "length example_many_events = 1002
   \<and> eventHistory (record_events example_many_events new_EventBus)
       = drop 2 (emitted example_many_events)
   \<and> length (eventHistory (record_events example_many_events new_EventBus)) = 1000"
proof -
  have l: "length example_many_events = 1002"
    by (simp only: example_many_events_def length_map length_upt diff_zero)
  have le: "length (emitted example_many_events) = 1002"
    using l by (simp add: emitted_def)
  from history_keeps_last_1000 [of "[]" example_many_events]
  have "eventHistory (record_events example_many_events new_EventBus)
          = drop 2 (emitted example_many_events)"
    by (simp add: l)
  then show ?thesis
    using l le by simp
qed

text \<open>
  The capacity is not 3 in any bus: five events on a new bus are all in the history.
\<close>

theorem history_capacity_is_1000_not_3:
  "maxHistorySize new_EventBus = 1000
   \<and> eventHistory (record_events example_events new_EventBus)
     = [(''a'', phasePayload 1 ''p''), (''b'', phasePayload 2 ''p''), (''a'', phasePayload 3 ''p''),
        (''c'', phasePayload 4 ''p''), (''b'', phasePayload 5 ''p'')]
   \<and> length (eventHistory (record_events example_events new_EventBus)) = 5"
  by (simp add: new_EventBus_def record_events_def example_events_def addToHistory_def Let_def
      stamp_def phasePayload_def)

section \<open>Properties of the wiring\<close>

lemma remove_if_once_fields [simp]:
  "memoryStore (remove_if_once ev l s) = memoryStore s"
  "agentManager (remove_if_once ev l s) = agentManager s"
  "autoFlow (remove_if_once ev l s) = autoFlow s"
  "timers (remove_if_once ev l s) = timers s"
  "promises (remove_if_once ev l s) = promises s"
  "eventHistory (eventBus (remove_if_once ev l s)) = eventHistory (eventBus s)"
  "maxHistorySize (eventBus (remove_if_once ev l s)) = maxHistorySize (eventBus s)"
  by (simp_all add: remove_if_once_def)

lemma wired_new_System: "wired (eventBus (new_System d))"
  by (simp add: wired_def new_System_def AutoFlow_setupEventListeners_def
      AgentManager_setupEventListeners_def EventBus_on_def ee_on_def new_EventBus_def
      core_wiring_def permanent_def)

lemma waitFor_handler_fields [simp]:
  "eventBus (waitFor_handler k s p) = eventBus s"
  "memoryStore (waitFor_handler k s p) = memoryStore s"
  "agentManager (waitFor_handler k s p) = agentManager s"
  "autoFlow (waitFor_handler k s p) = autoFlow s"
  by (simp_all add: waitFor_handler_def settle_def clearTimeout_def)

lemma wired_remove_waitFor:
  assumes "wired b" and "is_waitFor h"
  shows "wired (b\<lparr>emitter := ee_removeListener (emitter b) ev h c\<rparr>)"
  unfolding wired_def
proof
  fix e
  have eq: "filter (\<lambda>l. \<not> is_waitFor (listener_fn l))
          (filter (\<lambda>l. listener_fn l \<noteq> h \<or> c \<and> \<not> listener_once l) ls)
        = filter (\<lambda>l. \<not> is_waitFor (listener_fn l)) ls" for ls
    using assms(2) by (induction ls) auto
  have w: "filter (\<lambda>l. \<not> is_waitFor (listener_fn l)) (emitter b e) = map permanent (core_wiring e)"
    using assms(1) by (simp add: wired_def)
  show "filter (\<lambda>l. \<not> is_waitFor (listener_fn l))
          (emitter (b\<lparr>emitter := ee_removeListener (emitter b) ev h c\<rparr>) e)
        = map permanent (core_wiring e)"
  proof (cases "e = ev")
    case True
    then show ?thesis
      using w eq [of "emitter b ev"] by (simp add: ee_removeListener_def del: filter_filter)
  next
    case False
    then show ?thesis
      using w by (simp add: ee_removeListener_def)
  qed
qed

lemma wired_remove_if_once:
  "wired (eventBus s) \<Longrightarrow> is_waitFor (listener_fn l) \<or> \<not> listener_once l \<Longrightarrow>
   wired (eventBus (remove_if_once ev l s))"
  by (auto simp: remove_if_once_def wired_remove_waitFor)

lemma wired_listener:
  assumes "wired b" and "l \<in> set (emitter b ev)" and "\<not> is_waitFor (listener_fn l)"
  shows "listener_fn l \<in> set (core_wiring ev) \<and> \<not> listener_once l"
proof -
  have eq: "filter (\<lambda>l. \<not> is_waitFor (listener_fn l)) (emitter b ev) = map permanent (core_wiring ev)"
    using assms(1) by (simp add: wired_def)
  have "l \<in> set (filter (\<lambda>l. \<not> is_waitFor (listener_fn l)) (emitter b ev))"
    using assms(2,3) by simp
  then have "l \<in> set (map permanent (core_wiring ev))"
    unfolding eq .
  then show ?thesis by (auto simp: permanent_def)
qed

text \<open>Listeners that are not phase-completion listeners.\<close>

lemma dispatch_passive:
  assumes "\<forall>l\<in>set ls. is_waitFor (listener_fn l) \<or>
             (\<not> listener_once l \<and> (listener_fn l = SystemErrorListener \<or> listener_fn l = RealignListener))"
    and "wired (eventBus s)"
  shows "\<exists>s'. dispatch em now ev ls s p = Some s' \<and> wired (eventBus s')
           \<and> memoryStore s' = memoryStore s \<and> autoFlow s' = autoFlow s
           \<and> eventHistory (eventBus s') = eventHistory (eventBus s)
           \<and> maxHistorySize (eventBus s') = maxHistorySize (eventBus s)
           \<and> agentManager s' = (if RealignListener \<in> listener_fn ` set ls
                                 then clearAgents (agentManager s) else agentManager s)"
  using assms
proof (induction ls arbitrary: s)
  case Nil
  then show ?case by simp
next
  case (Cons l ls)
  let ?s1 = "remove_if_once ev l s"
  have l: "is_waitFor (listener_fn l) \<or>
           (\<not> listener_once l \<and> (listener_fn l = SystemErrorListener \<or> listener_fn l = RealignListener))"
    using Cons.prems(1) by simp
  have w1: "wired (eventBus ?s1)"
    using l Cons.prems(2) by (auto intro: wired_remove_if_once)
  have c1: "memoryStore ?s1 = memoryStore s" "autoFlow ?s1 = autoFlow s"
    "agentManager ?s1 = agentManager s"
    "eventHistory (eventBus ?s1) = eventHistory (eventBus s)"
    "maxHistorySize (eventBus ?s1) = maxHistorySize (eventBus s)"
    by simp_all
  obtain s2 where r: "run_handler em now (listener_fn l) ?s1 p = Some s2"
    and b2: "eventBus s2 = eventBus ?s1" and m2: "memoryStore s2 = memoryStore s"
    and f2: "autoFlow s2 = autoFlow s"
    and a2: "agentManager s2 = (if listener_fn l = RealignListener
                                then clearAgents (agentManager s) else agentManager s)"
    using l by (cases "listener_fn l") auto
  have rest: "\<forall>l\<in>set ls. is_waitFor (listener_fn l) \<or>
             (\<not> listener_once l \<and> (listener_fn l = SystemErrorListener \<or> listener_fn l = RealignListener))"
    using Cons.prems(1) by simp
  from Cons.IH [OF rest, of s2] w1 b2
  obtain s' where d: "dispatch em now ev ls s2 p = Some s'" and w: "wired (eventBus s')"
    and m: "memoryStore s' = memoryStore s2" and f: "autoFlow s' = autoFlow s2"
    and h: "eventHistory (eventBus s') = eventHistory (eventBus s2)"
    and x: "maxHistorySize (eventBus s') = maxHistorySize (eventBus s2)"
    and a: "agentManager s' = (if RealignListener \<in> listener_fn ` set ls
                                 then clearAgents (agentManager s2) else agentManager s2)"
    by auto
  have "dispatch em now ev (l # ls) s p = Some s'"
    using r d by (simp add: Let_def)
  moreover have "agentManager s' = (if RealignListener \<in> listener_fn ` set (l # ls)
                                 then clearAgents (agentManager s) else agentManager s)"
    using a a2 by (auto simp: clearAgents_def)
  ultimately show ?case
    using w m f h x m2 f2 b2 c1 by simp
qed

lemma core_wiring_cases:
  "h \<in> set (core_wiring ev) \<Longrightarrow>
   h = SystemErrorListener \<and> ev = SYSTEM_ERROR \<or> h = RealignListener \<and> ev = PROJECT_REALIGN
   \<or> (\<exists>n. h = PhaseCompleteListener n)"
  by (auto simp: core_wiring_def split: if_splits)

lemma wired_realign:
  assumes "wired b"
  shows "RealignListener \<in> listener_fn ` set (emitter b ev) \<longleftrightarrow> ev = PROJECT_REALIGN"
proof
  assume "RealignListener \<in> listener_fn ` set (emitter b ev)"
  then obtain l where l: "l \<in> set (emitter b ev)" "listener_fn l = RealignListener" by auto
  then have "RealignListener \<in> set (core_wiring ev)"
    using wired_listener [OF assms l(1)] by simp
  then show "ev = PROJECT_REALIGN"
    by (auto dest: core_wiring_cases)
next
  assume ev: "ev = PROJECT_REALIGN"
  have "filter (\<lambda>l. \<not> is_waitFor (listener_fn l)) (emitter b ev) = map permanent (core_wiring ev)"
    using assms by (simp add: wired_def)
  then have "permanent RealignListener \<in> set (filter (\<lambda>l. \<not> is_waitFor (listener_fn l)) (emitter b ev))"
    by (simp add: ev core_wiring_def)
  then have "permanent RealignListener \<in> set (emitter b ev)" by simp
  then show "RealignListener \<in> listener_fn ` set (emitter b ev)"
    by (force simp: permanent_def)
qed

lemma emit_passive:
  assumes "wired (eventBus s)" and "\<forall>n. PhaseCompleteListener n \<notin> set (core_wiring ev)"
  shows "\<exists>s'. emit (Suc fuel) now s ev p = Some s' \<and> wired (eventBus s')
           \<and> memoryStore s' = memoryStore s \<and> autoFlow s' = autoFlow s
           \<and> eventHistory (eventBus s') = eventHistory (addToHistory (eventBus s) ev (stamp now p))
           \<and> maxHistorySize (eventBus s') = maxHistorySize (eventBus s)
           \<and> agentManager s' = (if ev = PROJECT_REALIGN
                                 then clearAgents (agentManager s) else agentManager s)"
proof -
  let ?s1 = "s\<lparr>eventBus := addToHistory (eventBus s) ev (stamp now p)\<rparr>"
  let ?ls = "emitter (eventBus ?s1) ev"
  have w1: "wired (eventBus ?s1)"
    using assms(1) by (simp add: wired_def)
  have ls: "\<forall>l\<in>set ?ls. is_waitFor (listener_fn l) \<or>
             (\<not> listener_once l \<and> (listener_fn l = SystemErrorListener \<or> listener_fn l = RealignListener))"
  proof
    fix l assume l: "l \<in> set ?ls"
    show "is_waitFor (listener_fn l) \<or>
             (\<not> listener_once l \<and> (listener_fn l = SystemErrorListener \<or> listener_fn l = RealignListener))"
    proof (cases "is_waitFor (listener_fn l)")
      case False
      from wired_listener [OF w1 l False]
      have c: "listener_fn l \<in> set (core_wiring ev)" and o: "\<not> listener_once l" by simp_all
      from core_wiring_cases [OF c] assms(2) c o show ?thesis
        by auto
    qed simp
  qed
  from dispatch_passive [OF ls w1, of "emit fuel now" now ev "stamp now p"]
  obtain s' where d: "dispatch (emit fuel now) now ev ?ls ?s1 (stamp now p) = Some s'"
    and r: "wired (eventBus s')" "memoryStore s' = memoryStore ?s1" "autoFlow s' = autoFlow ?s1"
      "eventHistory (eventBus s') = eventHistory (eventBus ?s1)"
      "maxHistorySize (eventBus s') = maxHistorySize (eventBus ?s1)"
    and a: "agentManager s' = (if RealignListener \<in> listener_fn ` set ?ls
                                 then clearAgents (agentManager ?s1) else agentManager ?s1)"
    by blast
  have "emit (Suc fuel) now s ev p = Some s'"
    using d by (simp add: Let_def)
  moreover have "agentManager s' = (if ev = PROJECT_REALIGN
                                 then clearAgents (agentManager s) else agentManager s)"
    using a wired_realign [OF w1, of ev] by simp
  ultimately show ?thesis
    using r by simp
qed

text \<open>
  C9. When the re-align signal \<open>project.realign\<close> is published in a wired system, the
  emit returns, the registry has no agent instance and no role-index entry left, so that
  \<open>getActiveAgents\<close> is empty, and the store is what it was: the in-memory projects, the
  current project and the durable records.
\<close>

theorem realign_clears_agents_only:
  assumes "wired (eventBus s)" and "0 < fuel"
  shows "\<exists>s'. emit fuel now s PROJECT_REALIGN p = Some s'
           \<and> agents (agentManager s') = [] \<and> agentsByRole (agentManager s') = []
           \<and> getActiveAgents (agentManager s') = []
           \<and> memoryStore s' = memoryStore s"
proof -
  obtain f where f: "fuel = Suc f"
    using assms(2) by (cases fuel) auto
  have "\<forall>n. PhaseCompleteListener n \<notin> set (core_wiring PROJECT_REALIGN)"
    by (simp add: core_wiring_def)
  from emit_passive [OF assms(1) this, of f now p]
  show ?thesis
    unfolding f by (auto simp: clearAgents_def getActiveAgents_def)
qed

section \<open>Properties of the phase-completion listeners\<close>

lemma core_wiring_phase: "(ev, nm) \<in> set phase_listeners \<Longrightarrow> core_wiring ev = [PhaseCompleteListener nm]"
  by (auto simp: phase_listeners_def core_wiring_def)

lemma current_get: "currentProjectIs st project \<Longrightarrow> getCurrentProject st = Some project"
  by (simp add: currentProjectIs_def getCurrentProject_def)

lemma persist_current [simp]: "currentProjectId (persist st i) = currentProjectId st"
  by (simp add: persist_def split: option.splits)

lemma updateProjectStatus_current:
  "currentProjectIs st project \<Longrightarrow>
   currentProjectIs (updateProjectStatus st now (pc_id project) status)
     (project\<lparr>pc_status := status, updatedAt := now\<rparr>)"
  by (simp add: currentProjectIs_def updateProjectStatus_def)

lemma updatePhase_current:
  "currentProjectIs st project \<Longrightarrow>
   currentProjectIs (updatePhase st now (pc_id project) n u)
     (project\<lparr>phases := (phases project)(n \<mapsto> writtenPhase project n u), updatedAt := now\<rparr>)"
  by (simp add: currentProjectIs_def updatePhase_def writtenPhase_def Let_def)

lemma stamp_phasePayload [simp]: "stamp now (phasePayload now n) = phasePayload now n"
  by (simp add: stamp_def phasePayload_def)

lemma stamp_fields [simp]: "result (stamp now p) = result p" "artifacts (stamp now p) = artifacts p"
  by (simp_all add: stamp_def)

lemma addToHistory_history:
  "eventHistory (addToHistory b ev p) =
     (if length (eventHistory b) + 1 > maxHistorySize b then tl (eventHistory b @ [(ev, p)])
      else eventHistory b @ [(ev, p)])"
  by (simp add: addToHistory_def Let_def)

lemma phaseComplete_advance:
  assumes w: "wired (eventBus s)"
    and c: "currentProjectIs (memoryStore s) project"
    and wf: "workflows (autoFlow s) ''default'' = Some flow"
    and cur: "find (\<lambda>ph. wp_name ph = nm) flow = Some cur"
    and nx: "truthy (nextPhase cur) = Some nx"
    and nxt: "find (\<lambda>ph. wp_name ph = nx) flow = Some nxt"
    and se: "core_wiring (startEvent nxt) = []"
  shows "\<exists>s'. phaseCompleteListener (emit (Suc fuel) now) now nm s p = Some s'
           \<and> wired (eventBus s')
           \<and> memoryStore s' = advanced (memoryStore s) now (pc_id project) nm p nx
           \<and> agentManager s' = agentManager s
           \<and> autoFlow s' = (autoFlow s)\<lparr>currentPhase := Some nx\<rparr>
           \<and> eventHistory (eventBus s')
               = eventHistory (addToHistory (eventBus s) (startEvent nxt) (phasePayload now nx))
           \<and> maxHistorySize (eventBus s') = maxHistorySize (eventBus s)"
proof -
  let ?st1 = "updatePhase (memoryStore s) now (pc_id project) nm (completedPhase now nm p)"
  let ?p1 = "project\<lparr>phases := (phases project)(nm \<mapsto> writtenPhase project nm (completedPhase now nm p)),
                     updatedAt := now\<rparr>"
  have c1: "currentProjectIs ?st1 ?p1"
    by (rule updatePhase_current [OF c])
  have id1: "pc_id ?p1 = pc_id project" by simp
  let ?s2 = "s\<lparr>autoFlow := (autoFlow s)\<lparr>currentPhase := Some nx\<rparr>,
               memoryStore := advanced (memoryStore s) now (pc_id project) nm p nx\<rparr>"
  have step: "phaseCompleteListener (emit (Suc fuel) now) now nm s p
              = emit (Suc fuel) now ?s2 (startEvent nxt) (phasePayload now nx)"
    using current_get [OF c] current_get [OF c1] wf cur nx nxt
    by (simp add: phaseCompleteListener_def proceedToNextPhase_def Let_def advanced_def
          del: emit.simps)
  have w2: "wired (eventBus ?s2)" using w by simp
  have "\<forall>n. PhaseCompleteListener n \<notin> set (core_wiring (startEvent nxt))"
    by (simp add: se)
  from emit_passive [OF w2 this, of fuel now "phasePayload now nx"]
  obtain s' where e: "emit (Suc fuel) now ?s2 (startEvent nxt) (phasePayload now nx) = Some s'"
    and r: "wired (eventBus s')" "memoryStore s' = memoryStore ?s2" "autoFlow s' = autoFlow ?s2"
      "eventHistory (eventBus s')
         = eventHistory (addToHistory (eventBus ?s2) (startEvent nxt) (stamp now (phasePayload now nx)))"
      "maxHistorySize (eventBus s') = maxHistorySize (eventBus ?s2)"
      "agentManager s' = (if startEvent nxt = PROJECT_REALIGN
                          then clearAgents (agentManager ?s2) else agentManager ?s2)"
    by blast
  have "startEvent nxt \<noteq> PROJECT_REALIGN"
    using se by (auto simp: core_wiring_def)
  then show ?thesis
    using step e r by simp
qed

text \<open>What it does when the default definition has no next phase for the name.\<close>

lemma phaseComplete_final:
  assumes c: "currentProjectIs (memoryStore s) project"
    and wf: "workflows (autoFlow s) ''default'' = Some flow"
    and cur: "find (\<lambda>ph. wp_name ph = nm) flow = Some cur"
    and nx: "truthy (nextPhase cur) = None"
  shows "phaseCompleteListener em now nm s p =
           Some (s\<lparr>memoryStore := updateProjectStatus
                     (updatePhase (memoryStore s) now (pc_id project) nm (completedPhase now nm p))
                     now (pc_id project) COMPLETED,
                   autoFlow := (autoFlow s)\<lparr>isRunning := False\<rparr>\<rparr>)"
proof -
  let ?st1 = "updatePhase (memoryStore s) now (pc_id project) nm (completedPhase now nm p)"
  let ?p1 = "project\<lparr>phases := (phases project)(nm \<mapsto> writtenPhase project nm (completedPhase now nm p)),
                     updatedAt := now\<rparr>"
  have c1: "currentProjectIs ?st1 ?p1"
    by (rule updatePhase_current [OF c])
  show ?thesis
    using current_get [OF c] current_get [OF c1] wf cur nx
    by (simp add: phaseCompleteListener_def proceedToNextPhase_def Let_def)
qed

lemma dispatch_one_core:
  assumes "filter (\<lambda>l. \<not> is_waitFor (listener_fn l)) ls = [permanent h]"
    and "\<not> is_waitFor h"
    and "wired (eventBus s)"
    and "\<And>t. wired (eventBus t) \<Longrightarrow> core_of t = core_of s \<Longrightarrow>
           \<exists>t'. run_handler em now h t p = Some t' \<and> wired (eventBus t') \<and> core_of t' = c1"
  shows "\<exists>s'. dispatch em now ev ls s p = Some s' \<and> wired (eventBus s') \<and> core_of s' = c1"
  using assms
proof (induction ls arbitrary: s)
  case Nil
  then show ?case by simp
next
  case (Cons l ls)
  show ?case
  proof (cases "is_waitFor (listener_fn l)")
    case True
    let ?s1 = "remove_if_once ev l s"
    obtain k where k: "listener_fn l = WaitForHandler k"
      using True by (cases "listener_fn l") auto
    let ?s2 = "waitFor_handler k ?s1 p"
    have w2: "wired (eventBus ?s2)"
      using True Cons.prems(3) by (simp add: wired_remove_if_once)
    have c2: "core_of ?s2 = core_of s"
      by (simp add: core_of_def)
    have f: "filter (\<lambda>l. \<not> is_waitFor (listener_fn l)) ls = [permanent h]"
      using Cons.prems(1) True by simp
    have "\<exists>s'. dispatch em now ev ls ?s2 p = Some s' \<and> wired (eventBus s') \<and> core_of s' = c1"
      by (rule Cons.IH [OF f Cons.prems(2) w2]) (rule Cons.prems(4), simp_all add: c2)
    then show ?thesis
      using k by (simp add: Let_def)
  next
    case False
    then have l: "l = permanent h" and f: "filter (\<lambda>l. \<not> is_waitFor (listener_fn l)) ls = []"
      using Cons.prems(1) by simp_all
    from Cons.prems(4) [OF Cons.prems(3) refl]
    obtain t' where t: "run_handler em now h s p = Some t'" "wired (eventBus t')" "core_of t' = c1"
      by blast
    have ws: "\<forall>l\<in>set ls. is_waitFor (listener_fn l) \<or>
             (\<not> listener_once l \<and> (listener_fn l = SystemErrorListener \<or> listener_fn l = RealignListener))"
      using f by (auto simp: filter_empty_conv)
    have nr: "RealignListener \<notin> listener_fn ` set ls"
      using f by (force simp: filter_empty_conv)
    from dispatch_passive [OF ws t(2), of em now ev p] nr
    obtain s' where "dispatch em now ev ls t' p = Some s'" "wired (eventBus s')" "core_of s' = core_of t'"
      by (auto simp: core_of_def)
    then show ?thesis
      using t l by (simp add: permanent_def remove_if_once_def)
  qed
qed

lemma emit_one_core:
  assumes "wired (eventBus s)" and "core_wiring ev = [h]"
    and "\<And>t. wired (eventBus t) \<Longrightarrow>
           core_of t = core_of (s\<lparr>eventBus := addToHistory (eventBus s) ev (stamp now p)\<rparr>) \<Longrightarrow>
           \<exists>t'. run_handler (emit fuel now) now h t (stamp now p) = Some t' \<and> wired (eventBus t')
                \<and> core_of t' = c1"
  shows "\<exists>s'. emit (Suc fuel) now s ev p = Some s' \<and> wired (eventBus s') \<and> core_of s' = c1"
proof -
  let ?s1 = "s\<lparr>eventBus := addToHistory (eventBus s) ev (stamp now p)\<rparr>"
  have w1: "wired (eventBus ?s1)"
    using assms(1) by (simp add: wired_def)
  have f: "filter (\<lambda>l. \<not> is_waitFor (listener_fn l)) (emitter (eventBus ?s1) ev) = [permanent h]"
    using assms(1,2) by (simp add: wired_def)
  have nw: "\<not> is_waitFor h"
    using assms(2) by (auto simp: core_wiring_def split: if_splits)
  from dispatch_one_core [OF f nw w1 assms(3), of ev]
  show ?thesis by (simp add: Let_def)
qed

section \<open>More fuel gives the same result\<close>

lemma proceedToNextPhase_mono:
  assumes "\<And>s e p r. em s e p = Some r \<Longrightarrow> em' s e p = Some r"
    and "proceedToNextPhase em now s n = Some r"
  shows "proceedToNextPhase em' now s n = Some r"
  using assms(2)
  by (auto simp: proceedToNextPhase_def Let_def assms(1) split: option.splits)

lemma run_handler_mono:
  assumes "\<And>s e p r. em s e p = Some r \<Longrightarrow> em' s e p = Some r"
    and "run_handler em now h s p = Some r"
  shows "run_handler em' now h s p = Some r"
  using assms(2)
  by (cases h) (auto simp: phaseCompleteListener_def Let_def
      intro: proceedToNextPhase_mono [of em em', OF assms(1)])

lemma dispatch_mono:
  assumes "\<And>s e p r. em s e p = Some r \<Longrightarrow> em' s e p = Some r"
  shows "dispatch em now ev ls s p = Some r \<Longrightarrow> dispatch em' now ev ls s p = Some r"
proof (induction ls arbitrary: s)
  case Nil
  then show ?case by simp
next
  case (Cons l ls)
  let ?s1 = "remove_if_once ev l s"
  from Cons.prems obtain s2 where r: "run_handler em now (listener_fn l) ?s1 p = Some s2"
    and d: "dispatch em now ev ls s2 p = Some r"
    by (auto simp: Let_def split: option.splits if_splits)
  have "run_handler em' now (listener_fn l) ?s1 p = Some s2"
    by (rule run_handler_mono [of em em', OF assms r])
  moreover have "dispatch em' now ev ls s2 p = Some r"
    by (rule Cons.IH [OF d])
  ultimately show ?case
    by (simp add: Let_def)
qed

lemma emit_mono:
  "emit fuel now s ev p = Some r \<Longrightarrow> emit (fuel + k) now s ev p = Some r"
proof (induction fuel arbitrary: s ev p r)
  case 0
  then show ?case by simp
next
  case (Suc fuel)
  have "dispatch (emit (fuel + k) now) now ev
          (emitter (eventBus (s\<lparr>eventBus := addToHistory (eventBus s) ev (stamp now p)\<rparr>)) ev)
          (s\<lparr>eventBus := addToHistory (eventBus s) ev (stamp now p)\<rparr>) (stamp now p) = Some r"
    by (rule dispatch_mono [of "emit fuel now" "emit (fuel + k) now"])
       (use Suc in \<open>auto simp: Let_def\<close>)
  then show ?case by (simp add: Let_def)
qed

lemma emit_mono_le: "emit fuel now s ev p = Some r \<Longrightarrow> fuel \<le> fuel' \<Longrightarrow> emit fuel' now s ev p = Some r"
  using emit_mono [of fuel now s ev p r "fuel' - fuel"] by simp

section \<open>What publishing a complete-event does\<close>

lemma completedPhase_stamp [simp]: "completedPhase now nm (stamp t p) = completedPhase now nm p"
  by (simp add: completedPhase_def)

lemma complete_event_advances:
  assumes w: "wired (eventBus s)"
    and l: "(ce, nm) \<in> set phase_listeners"
    and c: "currentProjectIs (memoryStore s) project"
    and wf: "workflows (autoFlow s) ''default'' = Some flow"
    and cur: "find (\<lambda>ph. wp_name ph = nm) flow = Some cur"
    and nx: "truthy (nextPhase cur) = Some nx"
    and nxt: "find (\<lambda>ph. wp_name ph = nx) flow = Some nxt"
    and se: "core_wiring (startEvent nxt) = []"
  shows "\<exists>s'. emit (Suc (Suc fuel)) now s ce p = Some s'
           \<and> wired (eventBus s')
           \<and> memoryStore s' = advanced (memoryStore s) now (pc_id project) nm p nx
           \<and> agentManager s' = agentManager s
           \<and> autoFlow s' = (autoFlow s)\<lparr>currentPhase := Some nx\<rparr>
           \<and> eventHistory (eventBus s')
               = eventHistory (addToHistory (addToHistory (eventBus s) ce (stamp now p))
                    (startEvent nxt) (phasePayload now nx))
           \<and> maxHistorySize (eventBus s') = maxHistorySize (eventBus s)"
proof -
  let ?s1 = "s\<lparr>eventBus := addToHistory (eventBus s) ce (stamp now p)\<rparr>"
  let ?c1 = "(advanced (memoryStore s) now (pc_id project) nm p nx, agentManager s,
              (autoFlow s)\<lparr>currentPhase := Some nx\<rparr>,
              eventHistory (addToHistory (addToHistory (eventBus s) ce (stamp now p))
                    (startEvent nxt) (phasePayload now nx)),
              maxHistorySize (eventBus s))"
  have eff: "\<exists>t'. run_handler (emit (Suc fuel) now) now (PhaseCompleteListener nm) t (stamp now p) = Some t'
               \<and> wired (eventBus t') \<and> core_of t' = ?c1"
    if wt: "wired (eventBus t)" and ct: "core_of t = core_of ?s1" for t
  proof -
    have m: "memoryStore t = memoryStore s" and a: "autoFlow t = autoFlow s"
      and g: "agentManager t = agentManager s"
      and h: "eventHistory (eventBus t) = eventHistory (addToHistory (eventBus s) ce (stamp now p))"
      and x: "maxHistorySize (eventBus t) = maxHistorySize (eventBus s)"
      using ct by (simp_all add: core_of_def)
    from phaseComplete_advance [of t project flow nm cur nx nxt fuel now "stamp now p"]
      wt c wf cur nx nxt se m a
    obtain t' where "phaseCompleteListener (emit (Suc fuel) now) now nm t (stamp now p) = Some t'"
      "wired (eventBus t')"
      "memoryStore t' = advanced (memoryStore t) now (pc_id project) nm (stamp now p) nx"
      "agentManager t' = agentManager t"
      "autoFlow t' = (autoFlow t)\<lparr>currentPhase := Some nx\<rparr>"
      "eventHistory (eventBus t')
               = eventHistory (addToHistory (eventBus t) (startEvent nxt) (phasePayload now nx))"
      "maxHistorySize (eventBus t') = maxHistorySize (eventBus t)"
      by auto
    then show ?thesis
      using m a g h x by (simp add: core_of_def advanced_def addToHistory_history)
  qed
  from emit_one_core [OF w core_wiring_phase [OF l], of now p "Suc fuel" ?c1] eff
  show ?thesis
    by (auto simp: core_of_def)
qed

lemma complete_event_final:
  assumes w: "wired (eventBus s)"
    and l: "(ce, nm) \<in> set phase_listeners"
    and c: "currentProjectIs (memoryStore s) project"
    and wf: "workflows (autoFlow s) ''default'' = Some flow"
    and cur: "find (\<lambda>ph. wp_name ph = nm) flow = Some cur"
    and nx: "truthy (nextPhase cur) = None"
  shows "\<exists>s'. emit (Suc fuel) now s ce p = Some s'
           \<and> wired (eventBus s')
           \<and> memoryStore s' = updateProjectStatus
                     (updatePhase (memoryStore s) now (pc_id project) nm (completedPhase now nm p))
                     now (pc_id project) COMPLETED
           \<and> agentManager s' = agentManager s
           \<and> autoFlow s' = (autoFlow s)\<lparr>isRunning := False\<rparr>
           \<and> eventHistory (eventBus s') = eventHistory (addToHistory (eventBus s) ce (stamp now p))
           \<and> maxHistorySize (eventBus s') = maxHistorySize (eventBus s)"
proof -
  let ?s1 = "s\<lparr>eventBus := addToHistory (eventBus s) ce (stamp now p)\<rparr>"
  let ?c1 = "(updateProjectStatus
                     (updatePhase (memoryStore s) now (pc_id project) nm (completedPhase now nm p))
                     now (pc_id project) COMPLETED, agentManager s,
              (autoFlow s)\<lparr>isRunning := False\<rparr>,
              eventHistory (addToHistory (eventBus s) ce (stamp now p)),
              maxHistorySize (eventBus s))"
  have eff: "\<exists>t'. run_handler (emit fuel now) now (PhaseCompleteListener nm) t (stamp now p) = Some t'
               \<and> wired (eventBus t') \<and> core_of t' = ?c1"
    if wt: "wired (eventBus t)" and ct: "core_of t = core_of ?s1" for t
  proof -
    have m: "memoryStore t = memoryStore s" and a: "autoFlow t = autoFlow s"
      and g: "agentManager t = agentManager s"
      and h: "eventHistory (eventBus t) = eventHistory (addToHistory (eventBus s) ce (stamp now p))"
      and x: "maxHistorySize (eventBus t) = maxHistorySize (eventBus s)"
      using ct by (simp_all add: core_of_def)
    from phaseComplete_final [of t project flow nm cur "emit fuel now" now "stamp now p"]
      c wf cur nx m a
    show ?thesis
      using wt g h x by (simp add: core_of_def)
  qed
  from emit_one_core [OF w core_wiring_phase [OF l], of now p fuel ?c1] eff
  show ?thesis
    by (auto simp: core_of_def)
qed

lemma writtenPhase_status [simp]:
  "ph_status (writtenPhase project n (completedPhase now n p)) = completed"
  "ph_status (writtenPhase project n (startedPhase now n)) = in_progress"
  by (simp_all add: writtenPhase_def spread_def completedPhase_def startedPhase_def)


lemma writtenPhase_started [simp]:
  "startedAt (writtenPhase project n (startedPhase now n)) = Some now"
  by (simp add: writtenPhase_def spread_def startedPhase_def)

lemma writtenPhase_completed [simp]:
  "completedAt (writtenPhase project n (completedPhase now n p)) = Some now"
  "ph_result (writtenPhase project n (completedPhase now n p)) = result p"
  "ph_artifacts (writtenPhase project n (completedPhase now n p)) = artifacts p"
  by (simp_all add: writtenPhase_def spread_def completedPhase_def)


text \<open>
  C5 (as amended). When one of the six fixed complete-events is published with a current
  project, and the definition stored under "default" has a phase of the listener's fixed
  name with no next phase, the emit returns, the project status is "completed", the phase
  record is completed, the engine is not running, and the history gains the complete-event
  alone: no start-event is published.
\<close>

theorem final_phase_completes_project:
  assumes w: "wired (eventBus s)"
    and l: "(ce, nm) \<in> set phase_listeners"
    and c: "currentProjectIs (memoryStore s) project"
    and df: "workflows (autoFlow s) ''default'' = Some flow"
    and cur: "find (\<lambda>ph. wp_name ph = nm) flow = Some cur"
    and nx: "truthy (nextPhase cur) = None"
    and fuel: "0 < fuel"
  shows "\<exists>r project'. emit fuel now s ce p = Some r
        \<and> getCurrentProject (memoryStore r) = Some project'
        \<and> pc_status project' = COMPLETED
        \<and> map_option ph_status (phases project' nm) = Some completed
        \<and> isRunning (autoFlow r) = False
        \<and> eventHistory (eventBus r) = eventHistory (addToHistory (eventBus s) ce (stamp now p))"
proof -
  obtain f where f: "fuel = Suc f"
    using fuel by (cases fuel) auto
  from complete_event_final [OF w l c df cur nx, of f now p]
  obtain r where r: "emit fuel now s ce p = Some r"
    "memoryStore r = updateProjectStatus
                     (updatePhase (memoryStore s) now (pc_id project) nm (completedPhase now nm p))
                     now (pc_id project) COMPLETED"
    "autoFlow r = (autoFlow s)\<lparr>isRunning := False\<rparr>"
    "eventHistory (eventBus r) = eventHistory (addToHistory (eventBus s) ce (stamp now p))"
    unfolding f by auto
  let ?p1 = "project\<lparr>phases := (phases project)(nm \<mapsto>
               writtenPhase project nm (completedPhase now nm p)), updatedAt := now\<rparr>"
  let ?p2 = "?p1\<lparr>pc_status := COMPLETED, updatedAt := now\<rparr>"
  have c1: "currentProjectIs (updatePhase (memoryStore s) now (pc_id project) nm
              (completedPhase now nm p)) ?p1"
    by (rule updatePhase_current [OF c])
  have c2: "currentProjectIs (memoryStore r) ?p2"
    unfolding r(2) using updateProjectStatus_current [OF c1] by simp
  show ?thesis
    using r current_get [OF c2] by (intro exI [of _ r] exI [of _ ?p2]) simp
qed

section \<open>Runs of the default workflow\<close>

lemma startWorkflow_started:
  assumes w: "wired (eventBus s)"
    and c: "currentProjectIs (memoryStore s) project"
    and wf: "workflows (autoFlow s) name = Some (first # rest)"
    and se: "core_wiring (startEvent first) = []"
  shows "\<exists>s'. startWorkflow (Suc fuel) now s name = Some (None, s')
           \<and> wired (eventBus s')
           \<and> memoryStore s' = updatePhase
                 (updateProjectStatus (memoryStore s) now (pc_id project) REQUIREMENTS)
                 now (pc_id project) (wp_name first) (startedPhase now (wp_name first))
           \<and> agentManager s' = agentManager s
           \<and> autoFlow s' = (autoFlow s)\<lparr>isRunning := True, currentPhase := Some (wp_name first)\<rparr>
           \<and> eventHistory (eventBus s')
               = eventHistory (addToHistory (eventBus s) (startEvent first)
                    (phasePayload now (wp_name first)))
           \<and> maxHistorySize (eventBus s') = maxHistorySize (eventBus s)"
proof -
  let ?s3 = "s\<lparr>autoFlow := (autoFlow s)\<lparr>isRunning := True, currentPhase := Some (wp_name first)\<rparr>,
               memoryStore := updatePhase
                 (updateProjectStatus (memoryStore s) now (pc_id project) REQUIREMENTS)
                 now (pc_id project) (wp_name first) (startedPhase now (wp_name first))\<rparr>"
  have step: "startWorkflow (Suc fuel) now s name
              = map_option (Pair None)
                  (emit (Suc fuel) now ?s3 (startEvent first) (phasePayload now (wp_name first)))"
    using current_get [OF c] wf
    by (simp add: startWorkflow_def Let_def del: emit.simps)
  have w3: "wired (eventBus ?s3)" using w by simp
  have "\<forall>n. PhaseCompleteListener n \<notin> set (core_wiring (startEvent first))"
    by (simp add: se)
  from emit_passive [OF w3 this, of fuel now "phasePayload now (wp_name first)"]
  obtain s' where e: "emit (Suc fuel) now ?s3 (startEvent first) (phasePayload now (wp_name first)) = Some s'"
    and r: "wired (eventBus s')" "memoryStore s' = memoryStore ?s3" "autoFlow s' = autoFlow ?s3"
      "eventHistory (eventBus s')
         = eventHistory (addToHistory (eventBus ?s3) (startEvent first)
             (stamp now (phasePayload now (wp_name first))))"
      "maxHistorySize (eventBus s') = maxHistorySize (eventBus ?s3)"
      "agentManager s' = (if startEvent first = PROJECT_REALIGN
                          then clearAgents (agentManager ?s3) else agentManager ?s3)"
    by blast
  have "startEvent first \<noteq> PROJECT_REALIGN"
    using se by (auto simp: core_wiring_def)
  then show ?thesis
    using step e r by simp
qed

lemma createProject_current:
  "uuid \<noteq> [] \<Longrightarrow>
   currentProjectIs (snd (createProject st uuid t pid pname ts)) (fst (createProject st uuid t pid pname ts))"
  by (simp add: createProject_def Let_def currentProjectIs_def)

lemma createProject_phases [simp]: "phases (fst (createProject st uuid t pid pname ts)) = Map.empty"
  by (simp add: createProject_def Let_def)

lemma createProject_status [simp]: "pc_status (fst (createProject st uuid t pid pname ts)) = INITIALIZING"
  by (simp add: createProject_def Let_def)

lemma default_first:
  "defaultWorkflow = hd defaultWorkflow # tl defaultWorkflow"
  "wp_name (hd defaultWorkflow) = ''requirements''"
  "core_wiring (startEvent (hd defaultWorkflow)) = []"
  by (simp_all add: defaultWorkflow_def core_wiring_def)

lemma default_next:
  assumes "(ce, nm) \<in> set phase_listeners"
  shows "(\<exists>cur. find (\<lambda>ph. wp_name ph = nm) defaultWorkflow = Some cur \<and> truthy (nextPhase cur) = None)
       \<or> (\<exists>cur nx nxt. find (\<lambda>ph. wp_name ph = nm) defaultWorkflow = Some cur
             \<and> truthy (nextPhase cur) = Some nx
             \<and> find (\<lambda>ph. wp_name ph = nx) defaultWorkflow = Some nxt
             \<and> core_wiring (startEvent nxt) = [] \<and> nx \<noteq> nm)"
  using assms
  by (auto simp: phase_listeners_def defaultWorkflow_def truthy_def core_wiring_def)

lemma in_order_run_inv: "in_order_run s \<Longrightarrow> run_inv s"
proof (induction rule: in_order_run.induct)
  case (started s0 uuid fuel now t pid pname ts s)
  let ?st1 = "snd (createProject (memoryStore s0) uuid t pid pname ts)"
  let ?p0 = "fst (createProject (memoryStore s0) uuid t pid pname ts)"
  let ?s0 = "s0\<lparr>memoryStore := ?st1\<rparr>"
  have c0: "currentProjectIs (memoryStore ?s0) ?p0"
    using createProject_current [OF started(3)] by simp
  obtain f where f: "fuel = Suc f"
    using started(4) current_get [OF c0] started(2)
    by (cases fuel) (auto simp: startWorkflow_def Let_def defaultWorkflow_def)
  have wf: "workflows (autoFlow ?s0) ''default'' = Some (hd defaultWorkflow # tl defaultWorkflow)"
    using started(2) default_first(1) by simp
  have w0: "wired (eventBus ?s0)" using started(1) by simp
  from startWorkflow_started [OF w0 c0 wf default_first(3), of f now] started(4)
  have w: "wired (eventBus s)"
    and m: "memoryStore s = updatePhase
                 (updateProjectStatus ?st1 now (pc_id ?p0) REQUIREMENTS)
                 now (pc_id ?p0) ''requirements'' (startedPhase now ''requirements'')"
    and a: "autoFlow s = (autoFlow s0)\<lparr>isRunning := True, currentPhase := Some ''requirements''\<rparr>"
    unfolding f by (auto simp: default_first(2))
  let ?p1 = "?p0\<lparr>pc_status := REQUIREMENTS, updatedAt := now\<rparr>"
  let ?p2 = "?p1\<lparr>phases := (phases ?p1)(''requirements'' \<mapsto>
               writtenPhase ?p1 ''requirements'' (startedPhase now ''requirements'')), updatedAt := now\<rparr>"
  have c1: "currentProjectIs (updateProjectStatus ?st1 now (pc_id ?p0) REQUIREMENTS) ?p1"
    using updateProjectStatus_current [OF c0] by simp
  have c2: "currentProjectIs (memoryStore s) ?p2"
    unfolding m using updatePhase_current [OF c1] by simp
  have "in_progress_phases ?p2 \<subseteq> set_option (currentPhase (autoFlow s))"
    by (auto simp: in_progress_phases_def a split: if_splits)
  then show ?case
    using w a started(2) c2 unfolding run_inv_def by auto
next
  case (completes s nm ce fuel now payload s')
  from completes.IH obtain project where w: "wired (eventBus s)"
    and wf: "workflows (autoFlow s) ''default'' = Some defaultWorkflow"
    and c: "currentProjectIs (memoryStore s) project"
    and i: "in_progress_phases project \<subseteq> set_option (currentPhase (autoFlow s))"
    unfolding run_inv_def by auto
  have e2: "emit (Suc (Suc fuel)) now s ce payload = Some s'"
    using emit_mono [OF completes(4), of 2] by simp
  from default_next [OF completes(3)]
  show ?case
  proof (elim disjE exE conjE)
    fix cur
    assume cur: "find (\<lambda>ph. wp_name ph = nm) defaultWorkflow = Some cur"
      and nx: "truthy (nextPhase cur) = None"
    from complete_event_final [OF w completes(3) c wf cur nx, of "Suc fuel" now payload] e2
    have w': "wired (eventBus s')"
      and m: "memoryStore s' = updateProjectStatus
                     (updatePhase (memoryStore s) now (pc_id project) nm (completedPhase now nm payload))
                     now (pc_id project) COMPLETED"
      and a: "autoFlow s' = (autoFlow s)\<lparr>isRunning := False\<rparr>"
      by auto
    let ?p1 = "project\<lparr>phases := (phases project)(nm \<mapsto>
                 writtenPhase project nm (completedPhase now nm payload)), updatedAt := now\<rparr>"
    let ?p2 = "?p1\<lparr>pc_status := COMPLETED, updatedAt := now\<rparr>"
    have c1: "currentProjectIs (updatePhase (memoryStore s) now (pc_id project) nm
                (completedPhase now nm payload)) ?p1"
      by (rule updatePhase_current [OF c])
    have c2: "currentProjectIs (memoryStore s') ?p2"
      unfolding m using updateProjectStatus_current [OF c1] by simp
    have "in_progress_phases ?p2 \<subseteq> set_option (currentPhase (autoFlow s'))"
      using i completes(2) by (auto simp: in_progress_phases_def a split: if_splits)
    then show ?thesis
      using w' a wf c2 unfolding run_inv_def by auto
  next
    fix cur nx nxt
    assume cur: "find (\<lambda>ph. wp_name ph = nm) defaultWorkflow = Some cur"
      and nx: "truthy (nextPhase cur) = Some nx"
      and nxt: "find (\<lambda>ph. wp_name ph = nx) defaultWorkflow = Some nxt"
      and se: "core_wiring (startEvent nxt) = []" and ne: "nx \<noteq> nm"
    from complete_event_advances [OF w completes(3) c wf cur nx nxt se, of fuel now payload] e2
    have w': "wired (eventBus s')"
      and m: "memoryStore s' = advanced (memoryStore s) now (pc_id project) nm payload nx"
      and a: "autoFlow s' = (autoFlow s)\<lparr>currentPhase := Some nx\<rparr>"
      by auto
    let ?p1 = "project\<lparr>phases := (phases project)(nm \<mapsto>
                 writtenPhase project nm (completedPhase now nm payload)), updatedAt := now\<rparr>"
    let ?p2 = "?p1\<lparr>pc_status := mappedStatus nx, updatedAt := now\<rparr>"
    let ?p3 = "?p2\<lparr>phases := (phases ?p2)(nx \<mapsto> writtenPhase ?p2 nx (startedPhase now nx)),
                   updatedAt := now\<rparr>"
    have c1: "currentProjectIs (updatePhase (memoryStore s) now (pc_id project) nm
                (completedPhase now nm payload)) ?p1"
      by (rule updatePhase_current [OF c])
    have c2: "currentProjectIs (updateProjectStatus (updatePhase (memoryStore s) now (pc_id project) nm
                (completedPhase now nm payload)) now (pc_id project) (mappedStatus nx)) ?p2"
      using updateProjectStatus_current [OF c1] by simp
    have c3: "currentProjectIs (memoryStore s') ?p3"
      unfolding m advanced_def using updatePhase_current [OF c2] by simp
    have "in_progress_phases ?p3 \<subseteq> set_option (currentPhase (autoFlow s'))"
      using i completes(2) by (auto simp: in_progress_phases_def a split: if_splits)
    then show ?thesis
      using w' a wf c3 unfolding run_inv_def by auto
  qed
qed

text \<open>
  C3 (as amended). In every state of a run of the built-in default workflow in which each
  published complete-event is that of the engine's current phase, the phase map of the
  current project has at most one record in progress, and it is the record of the
  engine's current phase. (A complete-event published out of order can leave two.)
\<close>

theorem in_order_run_one_in_progress:
  assumes "in_order_run s"
  shows "\<exists>project. getCurrentProject (memoryStore s) = Some project
           \<and> in_progress_phases project \<subseteq> set_option (currentPhase (autoFlow s))
           \<and> card (in_progress_phases project) \<le> 1"
proof -
  from in_order_run_inv [OF assms] obtain project
    where c: "currentProjectIs (memoryStore s) project"
      and i: "in_progress_phases project \<subseteq> set_option (currentPhase (autoFlow s))"
    unfolding run_inv_def by auto
  have "card (in_progress_phases project) \<le> card (set_option (currentPhase (autoFlow s)))"
    by (rule card_mono [OF _ i]) simp
  also have "\<dots> \<le> 1"
    by (cases "currentPhase (autoFlow s)") simp_all
  finally show ?thesis
    using current_get [OF c] i by auto
qed

section \<open>Properties of waitFor\<close>

lemma same_waits_refl [simp]: "same_waits s s"
  by (simp add: same_waits_def)

lemma same_waits_preds:
  assumes "same_waits s' s"
  shows "done_with k v s' = done_with k v s"
    "waiting_or_resolved k ev s' = waiting_or_resolved k ev s"
    "resolved k ev s' = resolved k ev s"
  using assms
  by (simp_all add: same_waits_def done_with_def waiting_or_resolved_def cancelled_def
      registered_def pending_timer_def only_on_def resolved_def)

lemma proceedToNextPhase_shape:
  assumes "proceedToNextPhase em now s n = Some r"
  shows "\<exists>s2. same_waits s2 s \<and> (r = s2 \<or> (\<exists>e p. em s2 e p = Some r))"
proof -
  have sw: "same_waits (s\<lparr>autoFlow := a\<rparr>) s" "same_waits (s\<lparr>autoFlow := a, memoryStore := m\<rparr>) s"
    for a m
    by (simp_all add: same_waits_def)
  show ?thesis
    using assms
    unfolding proceedToNextPhase_def Let_def
    by (auto split: option.splits intro: sw same_waits_refl)
qed

lemma phaseCompleteListener_shape:
  assumes "phaseCompleteListener em now n s p = Some r"
  shows "\<exists>s2. same_waits s2 s \<and> (r = s2 \<or> (\<exists>e p. em s2 e p = Some r))"
proof -
  let ?s1 = "case getCurrentProject (memoryStore s) of None \<Rightarrow> s
             | Some project \<Rightarrow> s\<lparr>memoryStore := updatePhase (memoryStore s) now (pc_id project) n
                                       (completedPhase now n p)\<rparr>"
  have s1: "same_waits ?s1 s"
    by (simp add: same_waits_def split: option.splits)
  from assms have "proceedToNextPhase em now ?s1 n = Some r"
    by (simp add: phaseCompleteListener_def Let_def)
  from proceedToNextPhase_shape [OF this] obtain s2
    where "same_waits s2 ?s1" "r = s2 \<or> (\<exists>e p. em s2 e p = Some r)" by blast
  moreover from this(1) s1 have "same_waits s2 s"
    by (simp add: same_waits_def)
  ultimately show ?thesis by blast
qed

text \<open>One listener call keeps a property of the waits that the steps of the call keep.\<close>

lemma run_handler_invariant:
  assumes em: "\<And>s e p r. I s \<Longrightarrow> em s e p = Some r \<Longrightarrow> I r"
    and sw: "\<And>s s'. same_waits s' s \<Longrightarrow> I s \<Longrightarrow> I s'"
    and wh: "\<And>j. h = WaitForHandler j \<Longrightarrow> I (waitFor_handler j s p)"
    and i: "\<not> is_waitFor h \<Longrightarrow> I s"
    and r: "run_handler em now h s p = Some r"
  shows "I r"
proof (cases h)
  case (PhaseCompleteListener n)
  with r have "phaseCompleteListener em now n s p = Some r" by simp
  from phaseCompleteListener_shape [OF this] obtain s2
    where s2: "same_waits s2 s" "r = s2 \<or> (\<exists>e p. em s2 e p = Some r)" by blast
  have "I s" using i PhaseCompleteListener by simp
  then have "I s2" by (rule sw [OF s2(1)])
  with s2(2) em show ?thesis by blast
next
  case SystemErrorListener
  with r i show ?thesis by simp
next
  case RealignListener
  with r have "r = s\<lparr>agentManager := clearAgents (agentManager s)\<rparr>" by simp
  then have "same_waits r s" by (simp add: same_waits_def)
  moreover have "I s" using i RealignListener by simp
  ultimately show ?thesis by (rule sw)
next
  case (WaitForHandler j)
  with r wh show ?thesis by simp
qed

lemma dispatch_invariant:
  assumes em: "\<And>s e p r. I s \<Longrightarrow> em s e p = Some r \<Longrightarrow> I r"
    and sw: "\<And>s s'. same_waits s' s \<Longrightarrow> I s \<Longrightarrow> I s'"
    and rm: "\<And>s l. l \<in> set ls \<Longrightarrow> \<not> is_waitFor (listener_fn l) \<Longrightarrow> I s \<Longrightarrow>
               I (remove_if_once ev l s)"
    and wh: "\<And>s l j. l \<in> set ls \<Longrightarrow> listener_fn l = WaitForHandler j \<Longrightarrow> I s \<Longrightarrow>
               I (waitFor_handler j (remove_if_once ev l s) p)"
  shows "I s \<Longrightarrow> dispatch em now ev ls s p = Some r \<Longrightarrow> I r"
  using rm wh
proof (induction ls arbitrary: s)
  case Nil
  then show ?case by simp
next
  case (Cons l ls)
  from Cons.prems(2) obtain s2
    where h: "run_handler em now (listener_fn l) (remove_if_once ev l s) p = Some s2"
      and d: "dispatch em now ev ls s2 p = Some r"
    by (auto split: option.splits)
  have i1: "I (remove_if_once ev l s)" if "\<not> is_waitFor (listener_fn l)"
    by (rule Cons.prems(3)) (simp_all add: Cons.prems(1) that)
  have "I s2"
  proof (rule run_handler_invariant [where I = I and em = em, OF em sw _ i1 h])
    fix j assume "listener_fn l = WaitForHandler j"
    then show "I (waitFor_handler j (remove_if_once ev l s) p)"
      using Cons.prems(4) [of l j s] Cons.prems(1) by simp
  qed
  then show ?case
    by (rule Cons.IH [OF _ d]) (use Cons.prems(3,4) in auto)
qed

lemma set_removeListener: "set (ee_removeListener em e h c e') \<subseteq> set (em e')"
  by (auto simp: ee_removeListener_def)

lemma remove_if_once_emitter: "set (emitter (eventBus (remove_if_once e l s)) e') \<subseteq> set (emitter (eventBus s) e')"
  using set_removeListener by (auto simp: remove_if_once_def)

lemma not_registered:
  "\<not> registered k s \<longleftrightarrow> (\<forall>e x. x \<in> set (emitter (eventBus s) e) \<longrightarrow> listener_fn x \<noteq> WaitForHandler k)"
  unfolding registered_def image_iff by metis

lemma registered_remove: "\<not> registered k s \<Longrightarrow> \<not> registered k (remove_if_once e l s)"
  unfolding registered_def using remove_if_once_emitter by blast

lemma cancelled_remove: "cancelled k s \<Longrightarrow> cancelled k (remove_if_once e l s)"
  by (simp add: cancelled_def registered_remove pending_timer_def)

lemma only_on_remove: "only_on k ev s \<Longrightarrow> only_on k ev (remove_if_once e l s)"
  unfolding only_on_def
proof
  fix e'
  assume a: "\<forall>e. set (filter (\<lambda>l. listener_fn l = WaitForHandler k) (emitter (eventBus s) e))
            \<subseteq> (if e = ev then {\<lparr>listener_fn = WaitForHandler k, listener_once = True\<rparr>} else {})"
  have "set (filter (\<lambda>l. listener_fn l = WaitForHandler k) (emitter (eventBus (remove_if_once e l s)) e'))
        \<subseteq> set (filter (\<lambda>l. listener_fn l = WaitForHandler k) (emitter (eventBus s) e'))"
    using remove_if_once_emitter [of e l s e'] by auto
  with a show "set (filter (\<lambda>l. listener_fn l = WaitForHandler k) (emitter (eventBus (remove_if_once e l s)) e'))
        \<subseteq> (if e' = ev then {\<lparr>listener_fn = WaitForHandler k, listener_once = True\<rparr>} else {})"
    by blast
qed

lemma waitFor_handler_waits:
  "timers (waitFor_handler j s p) = filter (\<lambda>t. timer_id t \<noteq> j) (timers s)"
  "length (promises (waitFor_handler j s p)) = length (promises s)"
  "j \<noteq> k \<Longrightarrow> promises (waitFor_handler j s p) ! k = promises s ! k"
  by (simp_all add: waitFor_handler_def settle_def clearTimeout_def)

lemma waitFor_handler_other:
  assumes "j \<noteq> k"
  shows "done_with k v s \<Longrightarrow> done_with k v (waitFor_handler j s p)"
    "waiting_or_resolved k ev s \<Longrightarrow> waiting_or_resolved k ev (waitFor_handler j s p)"
    "resolved k ev s \<Longrightarrow> resolved k ev (waitFor_handler j s p)"
  using assms
  by (auto simp: done_with_def waiting_or_resolved_def resolved_def cancelled_def registered_def
      pending_timer_def only_on_def waitFor_handler_waits)

lemma waitFor_handler_settled:
  "k < length (promises s) \<Longrightarrow> promises s ! k \<noteq> Unsettled \<Longrightarrow>
   promises (waitFor_handler k s p) ! k = promises s ! k"
  by (simp add: waitFor_handler_def settle_def clearTimeout_def)

lemma waitFor_handler_unsettled:
  "k < length (promises s) \<Longrightarrow> promises s ! k = Unsettled \<Longrightarrow>
   promises (waitFor_handler k s p) ! k = Resolved p"
  by (simp add: waitFor_handler_def settle_def clearTimeout_def)

lemma waitFor_handler_resolved:
  "resolved k ev s \<Longrightarrow> resolved k ev (waitFor_handler k s p)"
  by (auto simp: resolved_def cancelled_def registered_def pending_timer_def
      waitFor_handler_waits waitFor_handler_settled)

text \<open>The call of handler \<open>k\<close> by the emitter: removed first, then run.\<close>

lemma waitFor_handler_resolves:
  assumes w: "waiting_or_resolved k ev s"
    and l: "listener_fn l = WaitForHandler k" "listener_once l"
  shows "resolved k ev (waitFor_handler k (remove_if_once ev l s) p)"
proof -
  let ?s1 = "remove_if_once ev l s"
  have len: "k < length (promises s)" and oo: "only_on k ev s"
    using w by (simp_all add: waiting_or_resolved_def)
  have nr: "\<not> registered k ?s1"
    unfolding registered_def
  proof
    assume "\<exists>e. WaitForHandler k \<in> listener_fn ` set (emitter (eventBus ?s1) e)"
    then obtain e x where x: "x \<in> set (emitter (eventBus ?s1) e)" "listener_fn x = WaitForHandler k"
      by auto
    have xs: "x \<in> set (emitter (eventBus s) e)"
      using x(1) remove_if_once_emitter by blast
    then have "x \<in> set (filter (\<lambda>l. listener_fn l = WaitForHandler k) (emitter (eventBus s) e))"
      using x(2) by simp
    with oo have e: "e = ev" and o: "listener_once x"
      unfolding only_on_def by (auto split: if_splits dest!: spec [of _ e])
    from x(1) show False
      using l o x(2) by (simp add: remove_if_once_def ee_removeListener_def e)
  qed
  show ?thesis
  proof (cases "promises s ! k = Unsettled")
    case True
    then show ?thesis
      using len nr
      by (auto simp: resolved_def cancelled_def registered_def pending_timer_def
          waitFor_handler_waits waitFor_handler_unsettled)
  next
    case False
    then show ?thesis
      using len nr w
      by (auto simp: resolved_def waiting_or_resolved_def cancelled_def registered_def
          pending_timer_def waitFor_handler_waits waitFor_handler_settled)
  qed
qed

lemma resolved_waiting: "resolved k ev s \<Longrightarrow> only_on k ev s \<Longrightarrow> waiting_or_resolved k ev s"
  by (auto simp: resolved_def waiting_or_resolved_def)

lemma cancelled_only_on: "cancelled k s \<Longrightarrow> only_on k ev s"
  by (auto simp: cancelled_def not_registered only_on_def)

lemma addToHistory_same_waits: "same_waits (s\<lparr>eventBus := addToHistory (eventBus s) e p\<rparr>) s"
  by (simp add: same_waits_def)

lemma emit_done_with:
  "done_with k v s \<Longrightarrow> emit fuel now s e p = Some r \<Longrightarrow> done_with k v r"
proof (induction fuel arbitrary: s e p r)
  case 0
  then show ?case by simp
next
  case (Suc fuel)
  let ?s1 = "s\<lparr>eventBus := addToHistory (eventBus s) e (stamp now p)\<rparr>"
  let ?ls = "emitter (eventBus ?s1) e"
  have d1: "done_with k v ?s1"
    using Suc.prems(1) same_waits_preds(1) [OF addToHistory_same_waits] by simp
  have nk: "\<forall>l\<in>set ?ls. listener_fn l \<noteq> WaitForHandler k"
    using Suc.prems(1) by (auto simp: done_with_def cancelled_def not_registered)
  have d: "dispatch (emit fuel now) now e ?ls ?s1 (stamp now p) = Some r"
    using Suc.prems(2) by (simp add: Let_def)
  show ?case
  proof (rule dispatch_invariant [where I = "done_with k v" and em = "emit fuel now", OF _ _ _ _ d1 d])
    show "\<And>s e p r. done_with k v s \<Longrightarrow> emit fuel now s e p = Some r \<Longrightarrow> done_with k v r"
      by (rule Suc.IH)
    show "\<And>s s'. same_waits s' s \<Longrightarrow> done_with k v s \<Longrightarrow> done_with k v s'"
      by (simp add: same_waits_preds)
    show "\<And>s l. l \<in> set ?ls \<Longrightarrow> done_with k v s \<Longrightarrow> done_with k v (remove_if_once e l s)"
      by (simp add: done_with_def cancelled_remove)
    show "done_with k v (waitFor_handler j (remove_if_once e l t) (stamp now p))"
      if "l \<in> set ?ls" "listener_fn l = WaitForHandler j" "done_with k v t" for t l j
    proof -
      have jk: "j \<noteq> k" using nk that(1,2) by auto
      have "done_with k v (remove_if_once e l t)"
        using that(3) by (simp add: done_with_def cancelled_remove)
      then show ?thesis by (rule waitFor_handler_other(1) [OF jk])
    qed
  qed
qed

lemma emit_resolved: "resolved k ev s \<Longrightarrow> emit fuel now s e p = Some r \<Longrightarrow> resolved k ev r"
  using emit_done_with [of k _ s fuel now e p r]
  by (auto simp: resolved_def done_with_def)

lemma dispatch_resolved:
  assumes em: "\<And>s e p r. resolved k ev s \<Longrightarrow> em s e p = Some r \<Longrightarrow> resolved k ev r"
    and i: "resolved k ev s"
    and d: "dispatch em now e ls s p = Some r"
  shows "resolved k ev r"
proof -
  have sw: "\<And>s s'. same_waits s' s \<Longrightarrow> resolved k ev s \<Longrightarrow> resolved k ev s'"
    by (simp add: same_waits_preds)
  have rm: "\<And>s l. l \<in> set ls \<Longrightarrow> resolved k ev s \<Longrightarrow> resolved k ev (remove_if_once e l s)"
    by (simp add: resolved_def cancelled_remove)
  have wh: "resolved k ev (waitFor_handler j (remove_if_once e l t) p)"
    if "l \<in> set ls" "listener_fn l = WaitForHandler j" "resolved k ev t" for t l j
  proof -
    have r1: "resolved k ev (remove_if_once e l t)"
      using that(3) by (simp add: resolved_def cancelled_remove)
    show ?thesis
    proof (cases "j = k")
      case True
      then show ?thesis using waitFor_handler_resolved [OF r1] by simp
    next
      case False
      then show ?thesis using waitFor_handler_other(3) [OF False r1] by simp
    qed
  qed
  show ?thesis
    by (rule dispatch_invariant [where I = "resolved k ev" and em = em and ls = ls,
          OF em sw rm wh i d])
qed

lemma find_append_None: "find P xs = None \<Longrightarrow> find P (xs @ ys) = find P ys"
  by (induction xs) (auto split: if_splits)

lemma only_on_snapshot:
  assumes "only_on k ev s" and "l \<in> set (emitter (eventBus s) e)" and "listener_fn l = WaitForHandler k"
  shows "e = ev \<and> listener_once l"
proof -
  from assms(2,3) have "l \<in> set (filter (\<lambda>l. listener_fn l = WaitForHandler k) (emitter (eventBus s) e))"
    by simp
  with assms(1) show ?thesis
    unfolding only_on_def by (auto split: if_splits dest!: spec [of _ e])
qed

lemma waiting_remove: "waiting_or_resolved k ev s \<Longrightarrow> waiting_or_resolved k ev (remove_if_once e l s)"
  by (auto simp: waiting_or_resolved_def only_on_remove cancelled_remove)

lemma resolved_is_waiting: "resolved k ev s \<Longrightarrow> waiting_or_resolved k ev s"
  by (auto simp: resolved_def waiting_or_resolved_def cancelled_only_on)

text \<open>A dispatch over listeners among which handler \<open>k\<close> stands for the event \<open>ev\<close> only,
  and as a one-time listener.\<close>

lemma dispatch_waiting:
  assumes em: "\<And>s e p r. waiting_or_resolved k ev s \<Longrightarrow> em s e p = Some r \<Longrightarrow> waiting_or_resolved k ev r"
    and ls: "\<forall>l\<in>set ls. listener_fn l = WaitForHandler k \<longrightarrow> e = ev \<and> listener_once l"
    and i: "waiting_or_resolved k ev s"
    and d: "dispatch em now e ls s p = Some r"
  shows "waiting_or_resolved k ev r"
proof -
  have sw: "\<And>s s'. same_waits s' s \<Longrightarrow> waiting_or_resolved k ev s \<Longrightarrow> waiting_or_resolved k ev s'"
    by (simp add: same_waits_preds)
  have rm: "\<And>s l. l \<in> set ls \<Longrightarrow> waiting_or_resolved k ev s \<Longrightarrow>
              waiting_or_resolved k ev (remove_if_once e l s)"
    by (simp add: waiting_remove)
  have wh: "waiting_or_resolved k ev (waitFor_handler j (remove_if_once e l t) p)"
    if "l \<in> set ls" "listener_fn l = WaitForHandler j" "waiting_or_resolved k ev t" for t l j
  proof (cases "j = k")
    case True
    with ls that(1,2) have "e = ev" "listener_once l" by auto
    then show ?thesis
      using waitFor_handler_resolves [OF that(3), of l p] that(2) True
      by (simp add: resolved_is_waiting)
  next
    case False
    then show ?thesis
      using waitFor_handler_other(2) [OF False waiting_remove [OF that(3)]] by simp
  qed
  show ?thesis
    by (rule dispatch_invariant [where I = "waiting_or_resolved k ev" and em = em and ls = ls,
          OF em sw rm wh i d])
qed

lemma emit_waiting:
  "waiting_or_resolved k ev s \<Longrightarrow> emit fuel now s e p = Some r \<Longrightarrow> waiting_or_resolved k ev r"
proof (induction fuel arbitrary: s e p r)
  case 0
  then show ?case by simp
next
  case (Suc fuel)
  let ?s1 = "s\<lparr>eventBus := addToHistory (eventBus s) e (stamp now p)\<rparr>"
  let ?ls = "emitter (eventBus ?s1) e"
  have w1: "waiting_or_resolved k ev ?s1"
    using Suc.prems(1) same_waits_preds(2) [OF addToHistory_same_waits] by simp
  have ls: "\<forall>l\<in>set ?ls. listener_fn l = WaitForHandler k \<longrightarrow> e = ev \<and> listener_once l"
    using only_on_snapshot [of k ev ?s1 _ e] w1 by (auto simp: waiting_or_resolved_def)
  have d: "dispatch (emit fuel now) now e ?ls ?s1 (stamp now p) = Some r"
    using Suc.prems(2) by (simp add: Let_def)
  show ?case
    by (rule dispatch_waiting [where em = "emit fuel now", OF Suc.IH ls w1 d])
qed

lemma dispatch_resolves:
  assumes emw: "\<And>s e p r. waiting_or_resolved k ev s \<Longrightarrow> em s e p = Some r \<Longrightarrow> waiting_or_resolved k ev r"
    and emr: "\<And>s e p r. resolved k ev s \<Longrightarrow> em s e p = Some r \<Longrightarrow> resolved k ev r"
  shows "\<forall>l\<in>set ls. listener_fn l = WaitForHandler k \<longrightarrow> listener_once l \<Longrightarrow>
         WaitForHandler k \<in> listener_fn ` set ls \<Longrightarrow> waiting_or_resolved k ev s \<Longrightarrow>
         dispatch em now ev ls s p = Some r \<Longrightarrow> resolved k ev r"
proof (induction ls arbitrary: s)
  case Nil
  then show ?case by simp
next
  case (Cons l ls)
  from Cons.prems(4) obtain s2
    where h: "run_handler em now (listener_fn l) (remove_if_once ev l s) p = Some s2"
      and d: "dispatch em now ev ls s2 p = Some r"
    by (auto split: option.splits)
  have one: "dispatch em now ev [l] s p = Some s2"
    using h by simp
  show ?case
  proof (cases "listener_fn l = WaitForHandler k")
    case True
    then have "s2 = waitFor_handler k (remove_if_once ev l s) p"
      using h by simp
    moreover have "listener_once l" using Cons.prems(1) True by simp
    ultimately have r2: "resolved k ev s2"
      using waitFor_handler_resolves [OF Cons.prems(3) True, of p] by simp
    show ?thesis
      by (rule dispatch_resolved [where em = em, OF emr r2 d])
  next
    case False
    have nl: "\<forall>x\<in>set [l]. listener_fn x = WaitForHandler k \<longrightarrow> ev = ev \<and> listener_once x"
      using False by simp
    have "waiting_or_resolved k ev s2"
      by (rule dispatch_waiting [where em = em and ls = "[l]", OF emw nl Cons.prems(3) one])
    moreover have "WaitForHandler k \<in> listener_fn ` set ls"
      using Cons.prems(2) False by auto
    ultimately show ?thesis
      using Cons.IH [of s2] Cons.prems(1) d by simp
  qed
qed

lemma emit_resolves:
  assumes w: "waiting_or_resolved k ev s"
    and l: "WaitForHandler k \<in> listener_fn ` set (emitter (eventBus s) ev)"
    and e: "emit fuel now s ev p = Some r"
  shows "resolved k ev r"
proof -
  obtain f where f: "fuel = Suc f"
    using e by (cases fuel) auto
  let ?s1 = "s\<lparr>eventBus := addToHistory (eventBus s) ev (stamp now p)\<rparr>"
  let ?ls = "emitter (eventBus ?s1) ev"
  have w1: "waiting_or_resolved k ev ?s1"
    using w same_waits_preds(2) [OF addToHistory_same_waits] by simp
  have ls: "\<forall>l\<in>set ?ls. listener_fn l = WaitForHandler k \<longrightarrow> listener_once l"
    using only_on_snapshot [of k ev ?s1 _ ev] w1 by (auto simp: waiting_or_resolved_def)
  have d: "dispatch (emit f now) now ev ?ls ?s1 (stamp now p) = Some r"
    using e by (simp add: f Let_def)
  have m: "WaitForHandler k \<in> listener_fn ` set ?ls"
    using l by simp
  show ?thesis
    by (rule dispatch_resolves [where em = "emit f now", OF emit_waiting emit_resolved ls m w1 d])
qed

text \<open>What \<open>waitFor\<close> sets up, in a system whose handlers and timers belong to promises
  that exist.\<close>

lemma waitFor_sets_up:
  assumes n: "numbered s" and wf: "waitFor s ev timeout = (k, s1)"
  shows "k = length (promises s)" "waiting_or_resolved k ev s1" "promises s1 ! k = Unsettled"
    "WaitForHandler k \<in> listener_fn ` set (emitter (eventBus s1) ev)"
    "timeout = Some t \<Longrightarrow> ToBoolean t \<Longrightarrow>
       find (\<lambda>x. timer_id x = k) (timers s1) = Some \<lparr>timer_id = k, timer_event = ev, timer_delay = t\<rparr>"
proof -
  show k: "k = length (promises s)"
    using wf by (auto simp: waitFor_def Let_def)
  have nr: "\<forall>e x. x \<in> set (emitter (eventBus s) e) \<longrightarrow> listener_fn x \<noteq> WaitForHandler k"
    and nt: "k \<notin> timer_id ` set (timers s)"
    using n unfolding numbered_def k not_registered [symmetric] pending_timer_def by auto
  have em: "emitter (eventBus s1) = ee_once (emitter (eventBus s)) ev (WaitForHandler k)"
    and pr: "promises s1 = promises s @ [Unsettled]"
    using wf by (auto simp: waitFor_def Let_def EventBus_once_def split: option.splits if_splits)
  show "promises s1 ! k = Unsettled"
    by (simp add: pr k)
  show "WaitForHandler k \<in> listener_fn ` set (emitter (eventBus s1) ev)"
    by (force simp: em ee_once_def)
  have oo: "only_on k ev s1"
    unfolding only_on_def using nr by (auto simp: em ee_once_def)
  show "waiting_or_resolved k ev s1"
    using oo by (simp add: waiting_or_resolved_def pr k)
  show "find (\<lambda>x. timer_id x = k) (timers s1) = Some \<lparr>timer_id = k, timer_event = ev, timer_delay = t\<rparr>"
    if "timeout = Some t" "ToBoolean t"
  proof -
    have ti: "timers s1 = timers s @ [\<lparr>timer_id = k, timer_event = ev, timer_delay = t\<rparr>]"
      using wf that by (auto simp: waitFor_def Let_def)
    have "find (\<lambda>x. timer_id x = k) (timers s) = None"
      using nt by (auto simp: find_None_iff)
    then show ?thesis
      by (simp add: ti find_append_None)
  qed
qed

lemma timer_fires_rejects:
  assumes w: "waiting_or_resolved k ev s" and u: "promises s ! k = Unsettled"
    and t: "find (\<lambda>x. timer_id x = k) (timers s) = Some tm" and te: "timer_event tm = ev"
  shows "done_with k (Rejected (Error (''Timeout waiting for event: '' @ ev))) (timer_fires k s)"
proof -
  have len: "k < length (promises s)" and oo: "only_on k ev s"
    using w by (simp_all add: waiting_or_resolved_def)
  let ?s2 = "(clearTimeout k s)\<lparr>eventBus :=
               EventBus_off (eventBus (clearTimeout k s)) ev (WaitForHandler k)\<rparr>"
  have tf: "timer_fires k s = settle k (Rejected (Error (''Timeout waiting for event: '' @ ev))) ?s2"
    using t te by (simp add: timer_fires_def Let_def)
  have nr: "\<not> registered k ?s2"
    unfolding not_registered
  proof (intro allI impI)
    fix e x assume x: "x \<in> set (emitter (eventBus ?s2) e)"
    show "listener_fn x \<noteq> WaitForHandler k"
    proof
      assume xk: "listener_fn x = WaitForHandler k"
      have "x \<in> set (emitter (eventBus s) e)"
        using x by (auto simp: EventBus_off_def ee_removeListener_def clearTimeout_def split: if_splits)
      from only_on_snapshot [OF oo this xk] have "e = ev" by simp
      with x xk show False
        by (simp add: EventBus_off_def ee_removeListener_def clearTimeout_def)
    qed
  qed
  have np: "\<not> pending_timer k ?s2"
    by (auto simp: pending_timer_def clearTimeout_def)
  have pr: "promises ?s2 = promises s"
    by (simp add: clearTimeout_def)
  show ?thesis
    unfolding tf using len u nr np pr
    by (auto simp: done_with_def settle_def cancelled_def registered_def pending_timer_def)
qed

lemma armed_waiting: "armed k ev t s \<Longrightarrow> waiting_or_resolved k ev s"
  by (auto simp: armed_def waiting_or_resolved_def)

lemma resolved_armed: "resolved k ev s \<Longrightarrow> armed k ev t s"
  by (auto simp: armed_def resolved_def cancelled_only_on)

lemma same_waits_armed: "same_waits s' s \<Longrightarrow> armed k ev t s' = armed k ev t s"
  by (simp add: same_waits_def armed_def cancelled_def registered_def pending_timer_def only_on_def)

lemma remove_other_emitter:
  assumes "listener_fn l \<noteq> WaitForHandler k"
  shows "filter (\<lambda>x. listener_fn x = WaitForHandler k) (emitter (eventBus (remove_if_once e l s)) e')
         = filter (\<lambda>x. listener_fn x = WaitForHandler k) (emitter (eventBus s) e')"
proof -
  have h: "filter (\<lambda>x. listener_fn x = WaitForHandler k)
          (filter (\<lambda>x. listener_fn x = listener_fn l \<longrightarrow> \<not> listener_once x) xs)
        = filter (\<lambda>x. listener_fn x = WaitForHandler k) xs" for xs
    using assms by (induction xs) auto
  show ?thesis
    by (simp add: remove_if_once_def ee_removeListener_def h del: filter_filter)
qed

lemma registered_on_filter:
  "WaitForHandler k \<in> listener_fn ` set xs
   \<longleftrightarrow> filter (\<lambda>x. listener_fn x = WaitForHandler k) xs \<noteq> []"
  unfolding filter_empty_conv image_iff by metis

lemma armed_remove_other:
  assumes "armed k ev t s" and "listener_fn l \<noteq> WaitForHandler k"
  shows "armed k ev t (remove_if_once e l s)"
proof -
  have f: "WaitForHandler k \<in> listener_fn ` set (emitter (eventBus (remove_if_once e l s)) ev)
           \<longleftrightarrow> WaitForHandler k \<in> listener_fn ` set (emitter (eventBus s) ev)"
    unfolding registered_on_filter remove_other_emitter [OF assms(2)] ..
  show ?thesis
    using assms(1) unfolding armed_def f
    by (auto simp: only_on_remove cancelled_remove)
qed

lemma find_filter_other:
  "j \<noteq> k \<Longrightarrow> find (\<lambda>x. timer_id x = k) (filter (\<lambda>x. timer_id x \<noteq> j) ts) = find (\<lambda>x. timer_id x = k) ts"
  by (induction ts) auto

lemma armed_waitFor_other:
  assumes "armed k ev t s" and "j \<noteq> k"
  shows "armed k ev t (waitFor_handler j s p)"
  using assms
  by (auto simp: armed_def cancelled_def registered_def pending_timer_def only_on_def
      waitFor_handler_waits find_filter_other)

lemma dispatch_armed:
  assumes em: "\<And>s e p r. armed k ev t s \<Longrightarrow> em s e p = Some r \<Longrightarrow> armed k ev t r"
    and ls: "\<forall>l\<in>set ls. listener_fn l = WaitForHandler k \<longrightarrow> e = ev \<and> listener_once l"
    and i: "armed k ev t s"
    and d: "dispatch em now e ls s p = Some r"
  shows "armed k ev t r"
proof -
  have sw: "\<And>s s'. same_waits s' s \<Longrightarrow> armed k ev t s \<Longrightarrow> armed k ev t s'"
    by (simp add: same_waits_armed)
  have rm: "\<And>s l. l \<in> set ls \<Longrightarrow> \<not> is_waitFor (listener_fn l) \<Longrightarrow> armed k ev t s \<Longrightarrow>
              armed k ev t (remove_if_once e l s)"
    by (rule armed_remove_other) auto
  have wh: "armed k ev t (waitFor_handler j (remove_if_once e l u) p)"
    if "l \<in> set ls" "listener_fn l = WaitForHandler j" "armed k ev t u" for u l j
  proof (cases "j = k")
    case True
    with ls that(1,2) have "e = ev" "listener_once l" by auto
    then show ?thesis
      using waitFor_handler_resolves [OF armed_waiting [OF that(3)], of l p] that(2) True
      by (simp add: resolved_armed)
  next
    case False
    have "armed k ev t (remove_if_once e l u)"
      by (rule armed_remove_other [OF that(3)]) (simp add: that(2) False)
    then show ?thesis
      by (rule armed_waitFor_other [OF _ False])
  qed
  show ?thesis
    by (rule dispatch_invariant [where I = "armed k ev t" and em = em and ls = ls,
          OF em sw rm wh i d])
qed

lemma emit_armed:
  "armed k ev t s \<Longrightarrow> emit fuel now s e p = Some r \<Longrightarrow> armed k ev t r"
proof (induction fuel arbitrary: s e p r)
  case 0
  then show ?case by simp
next
  case (Suc fuel)
  let ?s1 = "s\<lparr>eventBus := addToHistory (eventBus s) e (stamp now p)\<rparr>"
  let ?ls = "emitter (eventBus ?s1) e"
  have w1: "armed k ev t ?s1"
    using Suc.prems(1) same_waits_armed [OF addToHistory_same_waits] by simp
  have ls: "\<forall>l\<in>set ?ls. listener_fn l = WaitForHandler k \<longrightarrow> e = ev \<and> listener_once l"
    using only_on_snapshot [of k ev ?s1 _ e] w1 by (auto simp: armed_def)
  have d: "dispatch (emit fuel now) now e ?ls ?s1 (stamp now p) = Some r"
    using Suc.prems(2) by (simp add: Let_def)
  show ?case
    by (rule dispatch_armed [where em = "emit fuel now", OF Suc.IH ls w1 d])
qed

lemma emits_to_armed: "emits_to s r \<Longrightarrow> armed k ev t s \<Longrightarrow> armed k ev t r"
  by (induction rule: emits_to.induct) (auto intro: emit_armed)

lemma emits_to_done_with: "emits_to s r \<Longrightarrow> done_with k v s \<Longrightarrow> done_with k v r"
  by (induction rule: emits_to.induct) (auto intro: emit_done_with)

lemma waitFor_armed:
  assumes "numbered s" and "ToBoolean t" and "waitFor s ev (Some t) = (k, s1)"
  shows "armed k ev t s1"
  using waitFor_sets_up [OF assms(1,3)] assms(2)
  by (auto simp: armed_def waiting_or_resolved_def)

text \<open>
  Every emit returns, within two levels of nesting, when the start-events of the
  "default" definition are not subscribed by the core.
\<close>

lemma waitFor_wired: "wired (eventBus s) \<Longrightarrow> wired (eventBus (snd (waitFor s ev timeout)))"
  by (simp add: wired_def waitFor_def Let_def EventBus_once_def ee_once_def
      split: option.splits)

lemma waitFor_autoFlow [simp]: "autoFlow (snd (waitFor s ev timeout)) = autoFlow s"
  by (simp add: waitFor_def Let_def split: option.splits)

lemma unsubscribed_passive:
  "ev \<notin> set (map fst phase_listeners) \<Longrightarrow> \<forall>n. PhaseCompleteListener n \<notin> set (core_wiring ev)"
  by (auto simp: core_wiring_def phase_listeners_def)

lemma proceedToNextPhase_returns:
  assumes em: "\<And>(t::System) e q. wired (eventBus t) \<Longrightarrow>
                 e \<notin> set (map fst phase_listeners) \<Longrightarrow>
                 \<exists>t'. em t e q = Some t' \<and> wired (eventBus t')
                      \<and> workflows (autoFlow t') = workflows (autoFlow t)"
    and w: "wired (eventBus s)" and q: "starts_unsubscribed (autoFlow s)"
  shows "\<exists>s'. proceedToNextPhase em now s n = Some s' \<and> wired (eventBus s')
            \<and> workflows (autoFlow s') = workflows (autoFlow s)"
proof (cases "workflows (autoFlow s) ''default''")
  case None
  then show ?thesis
    using w by (simp add: proceedToNextPhase_def)
next
  case (Some flow)
  show ?thesis
  proof (cases "find (\<lambda>ph. wp_name ph = n) flow")
    case None
    then show ?thesis
      using w Some by (simp add: proceedToNextPhase_def)
  next
    case cur: (Some cur)
    show ?thesis
    proof (cases "truthy (nextPhase cur)")
      case None
      then show ?thesis
        using w Some cur by (simp add: proceedToNextPhase_def Let_def split: option.splits)
    next
      case nx: (Some nx)
      show ?thesis
      proof (cases "find (\<lambda>ph. wp_name ph = nx) flow")
        case None
        then show ?thesis
          using w Some cur nx by (simp add: proceedToNextPhase_def)
      next
        case nxt: (Some nxt)
        let ?s1 = "s\<lparr>autoFlow := (autoFlow s)\<lparr>currentPhase := Some nx\<rparr>\<rparr>"
        let ?s2 = "case getCurrentProject (memoryStore ?s1) of
                     None \<Rightarrow> ?s1
                   | Some project \<Rightarrow>
                       ?s1\<lparr>memoryStore :=
                         updatePhase
                           (updateProjectStatus (memoryStore ?s1) now (pc_id project) (mappedStatus nx))
                           now (pc_id project) nx (startedPhase now nx)\<rparr>"
        have step: "proceedToNextPhase em now s n = em ?s2 (startEvent nxt) (phasePayload now nx)"
          using Some cur nx nxt by (simp add: proceedToNextPhase_def Let_def)
        have w2: "wired (eventBus ?s2)"
          using w by (simp split: option.splits)
        have a2: "workflows (autoFlow ?s2) = workflows (autoFlow s)"
          by (simp split: option.splits)
        have "nxt \<in> set flow"
          using nxt by (auto simp: find_Some_iff)
        then have e: "startEvent nxt \<notin> set (map fst phase_listeners)"
          using q Some by (simp add: starts_unsubscribed_def list_all_iff)
        from em [OF w2 e, of "phasePayload now nx"] show ?thesis
          unfolding step a2 .
      qed
    qed
  qed
qed

lemma run_handler_returns:
  assumes em: "\<And>(t::System) e q. wired (eventBus t) \<Longrightarrow>
                 e \<notin> set (map fst phase_listeners) \<Longrightarrow>
                 \<exists>t'. em t e q = Some t' \<and> wired (eventBus t')
                      \<and> workflows (autoFlow t') = workflows (autoFlow t)"
    and w: "wired (eventBus s)" and q: "starts_unsubscribed (autoFlow s)"
  shows "\<exists>s'. run_handler em now h s p = Some s' \<and> wired (eventBus s')
            \<and> workflows (autoFlow s') = workflows (autoFlow s)"
proof (cases h)
  case (PhaseCompleteListener n)
  let ?s1 = "case getCurrentProject (memoryStore s) of
               None \<Rightarrow> s
             | Some project \<Rightarrow>
                 s\<lparr>memoryStore := updatePhase (memoryStore s) now (pc_id project) n
                                    (completedPhase now n p)\<rparr>"
  have w1: "wired (eventBus ?s1)" and a1: "autoFlow ?s1 = autoFlow s"
    using w by (simp_all split: option.splits)
  have q1: "starts_unsubscribed (autoFlow ?s1)"
    using q a1 by simp
  from proceedToNextPhase_returns [where em = em, OF em w1 q1, of now n]
  show ?thesis
    using PhaseCompleteListener a1 by (simp add: phaseCompleteListener_def Let_def)
next
  case SystemErrorListener
  then show ?thesis using w by simp
next
  case RealignListener
  then show ?thesis using w by simp
next
  case (WaitForHandler k)
  then show ?thesis using w by simp
qed

lemma dispatch_returns:
  assumes em: "\<And>(t::System) e q. wired (eventBus t) \<Longrightarrow>
                 e \<notin> set (map fst phase_listeners) \<Longrightarrow>
                 \<exists>t'. em t e q = Some t' \<and> wired (eventBus t')
                      \<and> workflows (autoFlow t') = workflows (autoFlow t)"
  shows "\<forall>l\<in>set ls. is_waitFor (listener_fn l) \<or> \<not> listener_once l \<Longrightarrow>
         wired (eventBus s) \<Longrightarrow> starts_unsubscribed (autoFlow s) \<Longrightarrow>
         \<exists>s'. dispatch em now ev ls s p = Some s' \<and> wired (eventBus s')
            \<and> workflows (autoFlow s') = workflows (autoFlow s)"
proof (induction ls arbitrary: s)
  case Nil
  then show ?case by simp
next
  case (Cons l ls)
  let ?s1 = "remove_if_once ev l s"
  have w1: "wired (eventBus ?s1)"
    using Cons.prems(1,2) by (simp add: wired_remove_if_once)
  have q1: "starts_unsubscribed (autoFlow ?s1)"
    using Cons.prems(3) by simp
  from run_handler_returns [where em = em, OF em w1 q1, of now "listener_fn l" p]
  obtain s2 where r: "run_handler em now (listener_fn l) ?s1 p = Some s2"
    and w2: "wired (eventBus s2)" and a2: "workflows (autoFlow s2) = workflows (autoFlow s)"
    by auto
  have q2: "starts_unsubscribed (autoFlow s2)"
    using Cons.prems(3) a2 by (simp add: starts_unsubscribed_def)
  have ls: "\<forall>l\<in>set ls. is_waitFor (listener_fn l) \<or> \<not> listener_once l"
    using Cons.prems(1) by simp
  from Cons.IH [OF ls w2 q2] a2 r show ?case
    by simp
qed

lemma emit_returns:
  assumes w: "wired (eventBus s)" and q: "starts_unsubscribed (autoFlow s)"
  shows "\<exists>s'. emit (Suc (Suc fuel)) now s ev p = Some s' \<and> wired (eventBus s')
            \<and> workflows (autoFlow s') = workflows (autoFlow s)"
proof -
  let ?s1 = "s\<lparr>eventBus := addToHistory (eventBus s) ev (stamp now p)\<rparr>"
  let ?ls = "emitter (eventBus ?s1) ev"
  have w1: "wired (eventBus ?s1)"
    using w by (simp add: wired_def)
  have q1: "starts_unsubscribed (autoFlow ?s1)"
    using q by simp
  have ls: "\<forall>l\<in>set ?ls. is_waitFor (listener_fn l) \<or> \<not> listener_once l"
    using wired_listener [OF w1] by blast
  have em: "\<exists>t'. emit (Suc fuel) now t e q = Some t' \<and> wired (eventBus t')
               \<and> workflows (autoFlow t') = workflows (autoFlow t)"
    if "wired (eventBus t)" "e \<notin> set (map fst phase_listeners)" for t e q
    using emit_passive [OF that(1) unsubscribed_passive [OF that(2)], of fuel now q] by auto
  from dispatch_returns [where em = "emit (Suc fuel) now", OF em ls w1 q1, of now ev "stamp now p"]
  show ?thesis
    by (simp add: Let_def)
qed

lemma emit_keeps:
  assumes w: "wired (eventBus s)" and q: "starts_unsubscribed (autoFlow s)"
    and e: "emit fuel now s ev p = Some r"
  shows "wired (eventBus r) \<and> starts_unsubscribed (autoFlow r)"
proof -
  from emit_returns [OF w q, of 0 now ev p]
  obtain s' where s': "emit (Suc (Suc 0)) now s ev p = Some s'" "wired (eventBus s')"
    "workflows (autoFlow s') = workflows (autoFlow s)"
    by blast
  have "r = s'"
  proof (cases "fuel \<le> Suc (Suc 0)")
    case True
    from emit_mono_le [OF e True] s'(1) show ?thesis by simp
  next
    case False
    then have "Suc (Suc 0) \<le> fuel" by simp
    from emit_mono_le [OF s'(1) this] e show ?thesis by simp
  qed
  then show ?thesis
    using s'(2,3) q by (simp add: starts_unsubscribed_def)
qed

lemma emits_to_keeps:
  "emits_to s r \<Longrightarrow> wired (eventBus s) \<and> starts_unsubscribed (autoFlow s) \<Longrightarrow>
   wired (eventBus r) \<and> starts_unsubscribed (autoFlow r)"
  by (induction rule: emits_to.induct) (auto dest: emit_keeps)

text \<open>
  C6 (as amended). For every event and every truthy timeout (a number other than 0 and
  \<open>NaN\<close>), \<open>waitFor\<close> leaves the promise unsettled with its one-time handler subscribed
  and its timer pending, set with the timeout as its delay. Whatever is emitted
  meanwhile, as long as the promise is unsettled the timer stays as it was set, and when
  it fires the promise is rejected with the error "Timeout waiting for event: ..." and
  neither handler nor timer is left. Every emit of the event that returns leaves the
  promise resolved and neither handler nor timer left; and in a wired system whose
  "default" definition has no subscribed start-event, every emit of the event with fuel
  for two levels of nesting does return. Once the call is done, no later emit changes the
  promise or finds the handler.
\<close>

theorem waitFor_times_out_or_resolves:
  assumes "numbered s" and "ToBoolean t" and "waitFor s ev (Some t) = (k, s1)"
  shows "promises s1 ! k = Unsettled \<and> registered k s1 \<and> pending_timer k s1
       \<and> find (\<lambda>x. timer_id x = k) (timers s1)
           = Some \<lparr>timer_id = k, timer_event = ev, timer_delay = t\<rparr>
       \<and> (\<forall>r. emits_to s1 r \<longrightarrow> promises r ! k = Unsettled \<longrightarrow>
             find (\<lambda>x. timer_id x = k) (timers r)
               = Some \<lparr>timer_id = k, timer_event = ev, timer_delay = t\<rparr>
             \<and> done_with k (Rejected (Error (''Timeout waiting for event: '' @ ev))) (timer_fires k r))
       \<and> (\<forall>r fuel now p r'. emits_to s1 r \<longrightarrow> emit fuel now r ev p = Some r' \<longrightarrow>
             (\<exists>q. done_with k (Resolved q) r'))
       \<and> (wired (eventBus s) \<longrightarrow> starts_unsubscribed (autoFlow s) \<longrightarrow>
            (\<forall>r fuel now p. emits_to s1 r \<longrightarrow> 2 \<le> fuel \<longrightarrow>
               (\<exists>r' q. emit fuel now r ev p = Some r' \<and> done_with k (Resolved q) r')))
       \<and> (\<forall>v r r'. done_with k v r \<longrightarrow> emits_to r r' \<longrightarrow> done_with k v r')"
proof -
  have a1: "armed k ev t s1"
    by (rule waitFor_armed [OF assms])
  have u: "promises s1 ! k = Unsettled"
    by (rule waitFor_sets_up(3) [OF assms(1,3)])
  have f1: "find (\<lambda>x. timer_id x = k) (timers s1)
              = Some \<lparr>timer_id = k, timer_event = ev, timer_delay = t\<rparr>"
    by (rule waitFor_sets_up(5) [OF assms(1,3) refl assms(2)])
  have su: "registered k s1 \<and> pending_timer k s1"
    using a1 u by (auto simp: armed_def registered_def pending_timer_def dest: find_Some_iff [THEN iffD1]
        intro: rev_image_eqI)
  have timeout: "find (\<lambda>x. timer_id x = k) (timers r)
                   = Some \<lparr>timer_id = k, timer_event = ev, timer_delay = t\<rparr>
                 \<and> done_with k (Rejected (Error (''Timeout waiting for event: '' @ ev))) (timer_fires k r)"
    if "emits_to s1 r" "promises r ! k = Unsettled" for r
  proof -
    have a: "armed k ev t r" by (rule emits_to_armed [OF that(1) a1])
    then have f: "find (\<lambda>x. timer_id x = k) (timers r)
                  = Some \<lparr>timer_id = k, timer_event = ev, timer_delay = t\<rparr>"
      using that(2) by (auto simp: armed_def)
    have "done_with k (Rejected (Error (''Timeout waiting for event: '' @ ev))) (timer_fires k r)"
      by (rule timer_fires_rejects [OF armed_waiting [OF a] that(2) f]) simp
    with f show ?thesis by simp
  qed
  have event: "\<exists>q. done_with k (Resolved q) r'"
    if "emits_to s1 r" "emit fuel now r ev p = Some r'" for r fuel now p r'
  proof -
    have a: "armed k ev t r" by (rule emits_to_armed [OF that(1) a1])
    have "resolved k ev r'"
    proof (cases "promises r ! k = Unsettled")
      case True
      then have "WaitForHandler k \<in> listener_fn ` set (emitter (eventBus r) ev)"
        using a by (auto simp: armed_def)
      then show ?thesis
        by (rule emit_resolves [OF armed_waiting [OF a] _ that(2)])
    next
      case False
      then have "resolved k ev r"
        using a by (auto simp: armed_def resolved_def)
      then show ?thesis
        by (rule emit_resolved [OF _ that(2)])
    qed
    then show ?thesis
      by (auto simp: resolved_def done_with_def)
  qed
  have returns: "\<exists>r' q. emit fuel now r ev p = Some r' \<and> done_with k (Resolved q) r'"
    if "wired (eventBus s)" "starts_unsubscribed (autoFlow s)" "emits_to s1 r" "2 \<le> fuel"
    for r fuel now p
  proof -
    have s1: "s1 = snd (waitFor s ev (Some t))"
      using assms(3) by simp
    have "wired (eventBus s1) \<and> starts_unsubscribed (autoFlow s1)"
      unfolding s1 using that(1,2) by (simp add: waitFor_wired)
    from emits_to_keeps [OF that(3) this]
    have w: "wired (eventBus r)" and q: "starts_unsubscribed (autoFlow r)" by simp_all
    have "fuel = Suc (Suc (fuel - 2))"
      using that(4) by simp
    then obtain f where f: "fuel = Suc (Suc f)" ..
    from emit_returns [OF w q, of f now ev p]
    obtain r' where r': "emit fuel now r ev p = Some r'"
      unfolding f by blast
    from event [OF that(3) r'] r' show ?thesis by blast
  qed
  show ?thesis
    using u su f1 timeout event returns emits_to_done_with by blast
qed

section \<open>The engine on concrete systems\<close>

text \<open>
  The default workflow is started and the complete-event of "development" is published
  while "requirements" is in progress: "requirements" and "testing" are both in
  progress afterwards.
\<close>

theorem out_of_order_complete_two_in_progress: "phaseStatusIn example_out_of_order ''requirements'' = Some in_progress
  \<and> phaseStatusIn example_out_of_order ''testing'' = Some in_progress
  \<and> currentPhaseIn example_out_of_order = Some ''testing''"
  by code_simp


text \<open>
  The definition "qa" is started and the complete-event of its only phase, which has no
  next phase, is published: the project status becomes "devops" and the start-event of
  "devops" is published, along the default definition.
\<close>

theorem custom_final_phase_not_completed: "phaseStatusIn example_qa_completed ''testing'' = Some completed
  \<and> projectStatusIn example_qa_completed = Some DEVOPS
  \<and> publishedIn example_qa_completed
      = [PHASE_TESTING_START, PHASE_TESTING_COMPLETE, PHASE_DEVOPS_START]"
  by code_simp

text \<open>
  C2. \<open>startWorkflow\<close> on the definition "qa", whose first phase is "testing": the record
  of "testing" is in progress and one start-event is in the history, but the project
  status is "requirements", which \<open>startWorkflow\<close> sets for every definition, and not the
  status "testing" that the phase maps to.
\<close>

theorem startWorkflow_status_not_mapped: "phaseStatusIn example_qa_started ''testing'' = Some in_progress
  \<and> publishedIn example_qa_started = [PHASE_TESTING_START]
  \<and> projectStatusIn example_qa_started = Some REQUIREMENTS
  \<and> mappedStatus ''testing'' = TESTING"
  by code_simp

text \<open>
  \<open>waitFor\<close> with the timeout 0 sets no timer: no timer callback can reject the promise,
  which stays unsettled with its handler subscribed. The same holds of the timeout
  \<open>NaN\<close>.
\<close>

theorem waitFor_zero_timeout_never_rejects:
  "fst (waitFor example_system ''user.message'' (Some (Finite 0))) = 0
  \<and> timers example_wait_zero = []
  \<and> timer_fires 0 example_wait_zero = example_wait_zero
  \<and> promises example_wait_zero ! 0 = Unsettled
  \<and> \<lparr>listener_fn = WaitForHandler 0, listener_once = True\<rparr>
       \<in> set (emitter (eventBus example_wait_zero) ''user.message'')
  \<and> timers example_wait_NaN = []
  \<and> timer_fires 0 example_wait_NaN = example_wait_NaN
  \<and> promises example_wait_NaN ! 0 = Unsettled
  \<and> \<lparr>listener_fn = WaitForHandler 0, listener_once = True\<rparr>
       \<in> set (emitter (eventBus example_wait_NaN) ''user.message'')"
  by (simp add: example_wait_zero_def example_wait_NaN_def waitFor_def Let_def timer_fires_def
      example_system_def new_System_def EventBus_once_def ee_once_def)

lemma example_system_wired: "wired (eventBus example_system)"
  using wired_new_System [of example_disk] by (simp add: example_system_def)

lemma example_system_current:
  "currentProjectIs (memoryStore example_system)
     (fst (createProject (memoryStore (new_System example_disk)) ''p1'' 1 ''web'' ''Web''
             example_techStack))"
  using createProject_current [of "''p1''" "memoryStore (new_System example_disk)" 1 "''web''"
      "''Web''" example_techStack]
  by (simp add: example_system_def)

lemma example_system_default:
  "workflows (autoFlow example_system) ''default'' = Some defaultWorkflow"
  by (simp add: example_system_def new_System_def new_AutoFlow_def initializeDefaultWorkflow_def)

lemma example_system_numbered: "numbered example_system"
  unfolding numbered_def registered_def pending_timer_def
  by (auto simp: example_system_def new_System_def AutoFlow_setupEventListeners_def
      AgentManager_setupEventListeners_def EventBus_on_def ee_on_def new_EventBus_def
      split: if_splits)


theorem final_phase_completes_project_witness:
  "projectStatusIn (emit 1 9 example_system PHASE_DOCUMENTATION_COMPLETE
      (phasePayload 9 ''documentation'')) = Some COMPLETED
   \<and> phaseStatusIn (emit 1 9 example_system PHASE_DOCUMENTATION_COMPLETE
      (phasePayload 9 ''documentation'')) ''documentation'' = Some completed
   \<and> publishedIn (emit 1 9 example_system PHASE_DOCUMENTATION_COMPLETE
      (phasePayload 9 ''documentation'')) = [PHASE_DOCUMENTATION_COMPLETE]"
proof -
  have l: "(PHASE_DOCUMENTATION_COMPLETE, ''documentation'') \<in> set phase_listeners"
    by (simp add: phase_listeners_def)
  have cur: "find (\<lambda>ph. wp_name ph = ''documentation'') defaultWorkflow = Some (defaultWorkflow ! 5)"
    by (simp add: defaultWorkflow_def)
  have nx: "truthy (nextPhase (defaultWorkflow ! 5)) = None"
    by (simp add: defaultWorkflow_def truthy_def)
  have fuel: "(0::nat) < 1" by simp
  have h: "eventHistory (eventBus example_system) = []" "maxHistorySize (eventBus example_system) = 1000"
    by (simp_all add: example_system_def new_System_def AutoFlow_setupEventListeners_def
        AgentManager_setupEventListeners_def EventBus_on_def new_EventBus_def)
  from final_phase_completes_project [OF example_system_wired l example_system_current
      example_system_default cur nx fuel, of 9 "phasePayload 9 ''documentation''"]
  show ?thesis
    by (auto simp: projectStatusIn_def phaseStatusIn_def publishedIn_def addToHistory_history h
        simp del: emit.simps)
qed

theorem realign_clears_agents_only_witness:
  "wired (eventBus example_team) \<and> length (getActiveAgents (agentManager example_team)) = 2
   \<and> (\<exists>s'. emit 1 9 example_team PROJECT_REALIGN (phasePayload 9 []) = Some s'
           \<and> getActiveAgents (agentManager s') = []
           \<and> memoryStore s' = memoryStore example_team)"
proof -
  have w: "wired (eventBus example_team)"
    using example_system_wired by (simp add: example_team_def)
  have "length (getActiveAgents (agentManager example_team)) = 2"
    by code_simp
  with w realign_clears_agents_only [OF w, of 1 9 "phasePayload 9 []"]
  show ?thesis by auto
qed

lemma example_system_starts: "starts_unsubscribed (autoFlow example_system)"
  by (simp add: starts_unsubscribed_def example_system_default)
     (simp add: defaultWorkflow_def phase_listeners_def)

theorem waitFor_times_out_or_resolves_witness:
  "numbered example_system \<and> ToBoolean (Finite 5000)
   \<and> waitFor example_system ''user.message'' (Some (Finite 5000)) = (0, example_wait)
   \<and> wired (eventBus example_system) \<and> starts_unsubscribed (autoFlow example_system)
   \<and> timers example_wait
       = [\<lparr>timer_id = 0, timer_event = ''user.message'', timer_delay = Finite 5000\<rparr>]
   \<and> done_with 0 (Rejected (Error ''Timeout waiting for event: user.message''))
       (timer_fires 0 example_wait)
   \<and> (\<exists>r q. emit 2 7 example_wait ''user.message'' (phasePayload 7 []) = Some r
             \<and> done_with 0 (Resolved q) r
             \<and> done_with 0 (Resolved q) (timer_fires 0 r))"
proof -
  have k: "waitFor example_system ''user.message'' (Some (Finite 5000)) = (0, example_wait)"
    by (simp add: example_wait_def waitFor_def Let_def example_system_def new_System_def)
  have z: "ToBoolean (Finite 5000)" by simp
  have ti: "timers example_wait
       = [\<lparr>timer_id = 0, timer_event = ''user.message'', timer_delay = Finite 5000\<rparr>]"
    by (simp add: example_wait_def waitFor_def Let_def example_system_def new_System_def)
  note c6 = waitFor_times_out_or_resolves [OF example_system_numbered z k]
  have t: "done_with 0 (Rejected (Error (''Timeout waiting for event: '' @ ''user.message'')))
             (timer_fires 0 example_wait)"
    using c6 emits_to.no_emit [of example_wait] by blast
  have "\<forall>r fuel now p. emits_to example_wait r \<longrightarrow> 2 \<le> fuel \<longrightarrow>
               (\<exists>r' q. emit fuel now r ''user.message'' p = Some r' \<and> done_with 0 (Resolved q) r')"
    using c6 example_system_wired example_system_starts by blast
  from this [rule_format, OF emits_to.no_emit order_refl, of 7 "phasePayload 7 []"]
  have "\<exists>r q. emit 2 7 example_wait ''user.message'' (phasePayload 7 []) = Some r
             \<and> done_with 0 (Resolved q) r" .
  then obtain r q where r: "emit 2 7 example_wait ''user.message'' (phasePayload 7 []) = Some r"
    "done_with 0 (Resolved q) r"
    by blast
  have "done_with 0 (Resolved q) (timer_fires 0 r)"
    using r(2) by (simp add: done_with_def cancelled_def pending_timer_def timer_fires_def
        find_None_iff [THEN iffD2] image_iff)
  with r example_system_numbered z k ti t example_system_wired example_system_starts
  show ?thesis
    by auto
qed

lemma example_started_run:
  "startWorkflow 1 2 example_system ''default'' = Some (None, example_started)"
  "currentPhase (autoFlow example_started) = Some ''requirements''"
proof -
  have df: "workflows (autoFlow example_system) ''default''
            = Some (hd defaultWorkflow # tl defaultWorkflow)"
    using example_system_default default_first(1) by simp
  from startWorkflow_started [OF example_system_wired example_system_current df default_first(3),
      of 0 2]
  obtain s' where s': "startWorkflow 1 2 example_system ''default'' = Some (None, s')"
    "autoFlow s' = (autoFlow example_system)\<lparr>isRunning := True,
        currentPhase := Some (wp_name (hd defaultWorkflow))\<rparr>"
    by auto
  have "example_started = s'"
    using s'(1) by (simp add: example_started_def started_def)
  with s' show "startWorkflow 1 2 example_system ''default'' = Some (None, example_started)"
    "currentPhase (autoFlow example_started) = Some ''requirements''"
    by (simp_all add: default_first(2))
qed

lemma example_started_in_order: "in_order_run example_started"
proof (rule in_order_run.started [of "new_System example_disk" "''p1''" 1 2 1 "''web''" "''Web''"
      example_techStack])
  show "wired (eventBus (new_System example_disk))" by (rule wired_new_System)
  show "workflows (autoFlow (new_System example_disk)) ''default'' = Some defaultWorkflow"
    by (simp add: new_System_def new_AutoFlow_def initializeDefaultWorkflow_def)
  show "''p1'' \<noteq> []" by simp
  show "startWorkflow 1 2
     ((new_System example_disk)\<lparr>memoryStore :=
          snd (createProject (memoryStore (new_System example_disk)) ''p1'' 1 ''web'' ''Web''
                 example_techStack)\<rparr>) ''default'' = Some (None, example_started)"
    using example_started_run(1) by (simp add: example_system_def)
qed

lemma example_architecture_in_order: "in_order_run example_architecture"
proof -
  have l: "(PHASE_REQUIREMENTS_COMPLETE, ''requirements'') \<in> set phase_listeners"
    by (simp add: phase_listeners_def)
  from in_order_run_inv [OF example_started_in_order]
  obtain project where w: "wired (eventBus example_started)"
    and df: "workflows (autoFlow example_started) ''default'' = Some defaultWorkflow"
    and c: "currentProjectIs (memoryStore example_started) project"
    unfolding run_inv_def by auto
  have cur: "find (\<lambda>ph. wp_name ph = ''requirements'') defaultWorkflow = Some (defaultWorkflow ! 0)"
    by (simp add: defaultWorkflow_def)
  have nx: "truthy (nextPhase (defaultWorkflow ! 0)) = Some ''architecture''"
    by (simp add: defaultWorkflow_def truthy_def)
  have nxt: "find (\<lambda>ph. wp_name ph = ''architecture'') defaultWorkflow = Some (defaultWorkflow ! 1)"
    by (simp add: defaultWorkflow_def)
  have se: "core_wiring (startEvent (defaultWorkflow ! 1)) = []"
    by (simp add: defaultWorkflow_def core_wiring_def)
  from complete_event_advances [OF w l c df cur nx nxt se, of 0 3 "phasePayload 3 ''requirements''"]
  obtain r where "emit (Suc (Suc 0)) 3 example_started PHASE_REQUIREMENTS_COMPLETE
                    (phasePayload 3 ''requirements'') = Some r"
    by blast
  then have e: "emit 2 3 example_started PHASE_REQUIREMENTS_COMPLETE
                    (phasePayload 3 ''requirements'') = Some example_architecture"
    by (simp add: example_architecture_def numeral_2_eq_2 del: emit.simps)
  show ?thesis
    by (rule in_order_run.completes [OF example_started_in_order example_started_run(2) l e])
qed

theorem in_order_run_one_in_progress_witness:
  "in_order_run example_architecture
   \<and> phaseStatusIn (Some example_architecture) ''requirements'' = Some completed
   \<and> phaseStatusIn (Some example_architecture) ''architecture'' = Some in_progress
   \<and> (\<exists>project. getCurrentProject (memoryStore example_architecture) = Some project
         \<and> in_progress_phases project \<subseteq> set_option (currentPhase (autoFlow example_architecture))
         \<and> card (in_progress_phases project) \<le> 1)"
proof -
  have "phaseStatusIn (Some example_architecture) ''requirements'' = Some completed"
    "phaseStatusIn (Some example_architecture) ''architecture'' = Some in_progress"
    by code_simp+
  with in_order_run_one_in_progress [OF example_architecture_in_order]
    example_architecture_in_order
  show ?thesis by simp
qed

end
